theory Spec2Isabelle
  imports Main
begin

section \<open>Failure values\<close>

text \<open>
  A Go \<open>error\<close> is an interface value: it carries the dynamic type of what it holds, and the
  type assertions of \<open>Do\<close> and \<open>doCall\<close> compare that dynamic type. Types are therefore part
  of the data. Only their identity matters here: \<open>T_any\<close> is \<open>interface{}\<close> (alias \<open>any\<close>),
  every other type is given by its name.
\<close>

datatype gotype = T_any | T_named string

text \<open>
  The values an \<open>error\<close> can hold in this package: \<open>nil\<close>, an error of the client's own, a
  \<open>*panicError[T]\<close> (with the instantiation \<open>T\<close>, the recovered value and the stack text), and
  the sentinel \<open>errGoexit\<close>.
\<close>

datatype ('e, 'p) error =
    err_nil
  | err_client 'e
  | panicError gotype 'p string
  | errGoexit

text \<open>\<open>bytes.IndexByte\<close>: the index of the first occurrence of a byte, \<open>-1\<close> when absent.\<close>

fun IndexByte :: "string \<Rightarrow> char \<Rightarrow> int" where
  "IndexByte [] c = - 1"
| "IndexByte (x # xs) c =
     (if x = c then 0 else (let i = IndexByte xs c in if i < 0 then - 1 else i + 1))"

text \<open>
  \<open>newPanicError[B](b)\<close>. The stack text that \<open>debug.Stack()\<close> returns is an input. The
  type argument is explicit: Go infers it from the static type of the argument.
\<close>

definition newPanicError :: "gotype \<Rightarrow> string \<Rightarrow> 'p \<Rightarrow> ('e, 'p) error" where
  "newPanicError B stack0 b =
     (let line = IndexByte stack0 (CHR 0x0A);
          stack = (if line \<ge> 0 then drop (nat (line + 1)) stack0 else stack0)
      in panicError B b stack)"

text \<open>
  \<open>(*panicError[B]).Error\<close>: \<open>fmt.Sprintf("%v\n\n%s", p.value, p.stack)\<close>. The rendering of
  a value by \<open>%v\<close> is a parameter.
\<close>

definition Error :: "('p \<Rightarrow> string) \<Rightarrow> 'p \<Rightarrow> string \<Rightarrow> string" where
  "Error fmt_v value0 stack = fmt_v value0 @ [CHR 0x0A, CHR 0x0A] @ stack"

fun Error_of :: "('p \<Rightarrow> string) \<Rightarrow> ('e, 'p) error \<Rightarrow> string option" where
  "Error_of fmt_v (panicError T v stack) = Some (Error fmt_v v stack)"
| "Error_of fmt_v errGoexit = Some ''runtime.Goexit was called''"
| "Error_of fmt_v e = None"

text \<open>The type assertion \<open>e.(*panicError[B])\<close>: it holds when the dynamic type of \<open>e\<close> is
  identical to \<open>*panicError[B]\<close>.\<close>

fun is_panicError :: "gotype \<Rightarrow> ('e, 'p) error \<Rightarrow> bool" where
  "is_panicError B (panicError T v stack) = (T = B)"
| "is_panicError B e = False"

section \<open>Data model\<close>

text \<open>The instantiation of \<open>Group[A, B]\<close>: the type \<open>B\<close> and its zero value.\<close>

record 'v instantiation0 =
  type_B :: gotype
  zero_B :: 'v

record ('v, 'e, 'p) ResultContainer =
  rc_value :: 'v
  Err :: "('e, 'p) error"
  Shared :: bool

text \<open>
  \<open>call[B]\<close>. The wait group is its counter; \<open>chans\<close> holds channel addresses. \<open>dups\<close> is a
  Go \<open>int\<close>, only ever incremented, once per attaching caller; it is counted here without
  the bound of 64 bits, which no execution reaches.
\<close>

record ('v, 'e, 'p) call =
  waitGroup :: nat
  val :: 'v
  err :: "('e, 'p) error"
  dups :: nat
  chans :: "nat list"

text \<open>
  A buffered channel: its capacity, every value sent to it so far (oldest first), how many
  of them have been received, and whether it has been closed. The buffer holds
  \<open>drop (ch_nrecv c) (ch_sent c)\<close>; a send blocks while the buffer is full.
\<close>

record ('v, 'e, 'p) channel =
  ch_cap :: nat
  ch_sent :: "('v, 'e, 'p) ResultContainer list"
  ch_nrecv :: nat
  ch_closed :: bool

text \<open>
  The supplier is opaque; what the wrapper sees of it is how it ends: it returns a value
  and an error, it panics (with the value that \<open>recover()\<close> returns, which is not nil; the
  text is what \<open>debug.Stack()\<close> gives in the recovering function), it calls
  \<open>runtime.Goexit\<close>, or it never ends. The error a supplier returns may be any error
  value, \<open>errGoexit\<close> and a \<open>*panicError\<close> included.
\<close>

datatype ('v, 'e, 'p) supplier =
    Returns 'v "('e, 'p) error"
  | Panics 'p string
  | Goexits
  | Hangs

text \<open>
  Where a goroutine stands. The first seven are the points of \<open>group.go\<close> at which a
  goroutine can be overtaken by another one; the rest are ends.
\<close>

datatype ('k, 'v, 'e, 'p) pc =
    Do_entry 'k "('v, 'e, 'p) supplier"
  | Do_wait nat
  | Do_return nat
  | DoChan_entry 'k "('v, 'e, 'p) supplier"
  | Forget_entry 'k
  | doCall_fn nat 'k "('v, 'e, 'p) supplier" bool
  | doCall_deferred nat 'k bool bool bool
  | Returned nat 'v "('e, 'p) error" bool
  | ReturnedChan nat
  | Panicked "('e, 'p) error"
  | Goexited
  | Finished
  | Hung
  | SelectForever
  | SendBlocked
  | WaitGroupPanic

text \<open>A history of what happened to which call record; no transition reads it.\<close>

datatype event = EvCreate nat | EvAttach nat | EvInvoke nat

record ('k, 'v, 'e, 'p) state =
  mu :: bool
  workspaces :: "'k \<rightharpoonup> nat"
  calls :: "nat \<Rightarrow> ('v, 'e, 'p) call"
  ncalls :: nat
  channels :: "nat \<Rightarrow> ('v, 'e, 'p) channel"
  nchannels :: nat
  threads :: "nat \<Rightarrow> ('k, 'v, 'e, 'p) pc"
  nthreads :: nat
  crashed :: "('e, 'p) error option"
  history :: "event list"

definition new_call :: "'v instantiation0 \<Rightarrow> ('v, 'e, 'p) call" where
  "new_call I = \<lparr>waitGroup = 0, val = zero_B I, err = err_nil, dups = 0, chans = []\<rparr>"

definition make_chan :: "nat \<Rightarrow> ('v, 'e, 'p) channel" where
  "make_chan n = \<lparr>ch_cap = n, ch_sent = [], ch_nrecv = 0, ch_closed = False\<rparr>"

definition init :: "'v instantiation0 \<Rightarrow> ('k, 'v, 'e, 'p) state" where
  "init I = \<lparr>mu = False, workspaces = Map.empty, calls = (\<lambda>_. new_call I), ncalls = 0,
     channels = (\<lambda>_. make_chan 0), nchannels = 0, threads = (\<lambda>_. Finished), nthreads = 0,
     crashed = None, history = []\<rparr>"

section \<open>Channels\<close>

definition can_send :: "('v, 'e, 'p) channel \<Rightarrow> bool" where
  "can_send c = (length (ch_sent c) - ch_nrecv c < ch_cap c)"

definition send :: "('v, 'e, 'p) channel \<Rightarrow> ('v, 'e, 'p) ResultContainer \<Rightarrow> ('v, 'e, 'p) channel" where
  "send c r = c\<lparr>ch_sent := ch_sent c @ [r]\<rparr>"

text \<open>
  The loop \<open>for _, ch := range c.chans { ch <- r }\<close>: the channel store after it, and
  whether the loop got through (it stops at the first send that blocks).
\<close>

fun fanout :: "(nat \<Rightarrow> ('v, 'e, 'p) channel) \<Rightarrow> nat list \<Rightarrow> ('v, 'e, 'p) ResultContainer
    \<Rightarrow> (nat \<Rightarrow> ('v, 'e, 'p) channel) \<times> bool" where
  "fanout chs [] r = (chs, True)"
| "fanout chs (ch # rest) r =
     (if can_send (chs ch) then fanout (chs(ch := send (chs ch) r)) rest r else (chs, False))"

section \<open>The operations of \<open>group.go\<close>\<close>

text \<open>
  Each function below is one stretch of code that runs without another goroutine of the
  group in between: a region between \<open>g.mu.Lock()\<close> and \<open>g.mu.Unlock()\<close>, or code that
  touches only what the goroutine owns. \<open>mu\<close> is true only when a goroutine stopped for
  ever inside such a region. A nil \<open>workspaces\<close> map and an empty one are the same map:
  the code reads and deletes from it only after the lazy \<open>make\<close>, or where nil behaves as
  empty.
\<close>

text \<open>\<open>Do\<close>, lines 24 to 43.\<close>

definition Do_lock :: "'v instantiation0 \<Rightarrow> ('k, 'v, 'e, 'p) state \<Rightarrow> nat \<Rightarrow> 'k
    \<Rightarrow> ('v, 'e, 'p) supplier \<Rightarrow> ('k, 'v, 'e, 'p) state option" where
  "Do_lock I s t key fn =
     (if mu s then None
      else (case workspaces s key of
          Some c \<Rightarrow> Some (s\<lparr>calls := (calls s)(c := (calls s c)\<lparr>dups := dups (calls s c) + 1\<rparr>),
                           threads := (threads s)(t := Do_wait c),
                           history := EvAttach c # history s\<rparr>)
        | None \<Rightarrow> (let c = ncalls s in
            Some (s\<lparr>calls := (calls s)(c := (new_call I)\<lparr>waitGroup := 1\<rparr>),
                    ncalls := c + 1,
                    workspaces := (workspaces s)(key \<mapsto> c),
                    threads := (threads s)(t := doCall_fn c key fn True),
                    history := EvCreate c # history s\<rparr>))))"

text \<open>\<open>Do\<close>, lines 31 to 38: the duplicate after \<open>c.waitGroup.Wait()\<close>.\<close>

definition Do_wake :: "'v instantiation0 \<Rightarrow> ('k, 'v, 'e, 'p) state \<Rightarrow> nat \<Rightarrow> nat
    \<Rightarrow> ('k, 'v, 'e, 'p) state option" where
  "Do_wake I s t c =
     (if waitGroup (calls s c) \<noteq> 0 then None
      else (let e = err (calls s c) in
        Some (s\<lparr>threads := (threads s)(t :=
          (if is_panicError (type_B I) e then Panicked e
           else if e = errGoexit then Goexited
           else Returned c (val (calls s c)) e True))\<rparr>)))"

text \<open>\<open>Do\<close>, line 46.\<close>

definition Do_ret :: "('k, 'v, 'e, 'p) state \<Rightarrow> nat \<Rightarrow> nat \<Rightarrow> ('k, 'v, 'e, 'p) state option" where
  "Do_ret s t c =
     Some (s\<lparr>threads := (threads s)(t :=
       Returned c (val (calls s c)) (err (calls s c)) (dups (calls s c) > 0))\<rparr>)"

text \<open>\<open>DoChan\<close>, lines 57 to 75. The new goroutine of line 73 gets the next free slot.\<close>

definition DoChan_body :: "'v instantiation0 \<Rightarrow> ('k, 'v, 'e, 'p) state \<Rightarrow> nat \<Rightarrow> 'k
    \<Rightarrow> ('v, 'e, 'p) supplier \<Rightarrow> ('k, 'v, 'e, 'p) state option" where
  "DoChan_body I s t key fn =
     (if mu s then None
      else (let ch = nchannels s;
                s1 = s\<lparr>channels := (channels s)(ch := make_chan 1), nchannels := ch + 1\<rparr>
        in (case workspaces s key of
          Some c \<Rightarrow> Some (s1\<lparr>calls := (calls s)(c := (calls s c)\<lparr>dups := dups (calls s c) + 1,
                                                     chans := chans (calls s c) @ [ch]\<rparr>),
                            threads := (threads s)(t := ReturnedChan ch),
                            history := EvAttach c # history s\<rparr>)
        | None \<Rightarrow> (let c = ncalls s in
            Some (s1\<lparr>calls := (calls s)(c := (new_call I)\<lparr>chans := [ch], waitGroup := 1\<rparr>),
                     ncalls := c + 1,
                     workspaces := (workspaces s)(key \<mapsto> c),
                     threads := (threads s)(t := ReturnedChan ch,
                                            nthreads s := doCall_fn c key fn False),
                     nthreads := nthreads s + 1,
                     history := EvCreate c # history s\<rparr>)))))"

text \<open>
  \<open>doCall\<close>, lines 121 to 143: the supplier runs, and the flags \<open>normalReturn\<close> and
  \<open>recovered\<close> are set. \<open>recover()\<close> has static type \<open>any\<close>, so line 132 is
  \<open>newPanicError[any](r)\<close>.
\<close>

definition doCall_run :: "('k, 'v, 'e, 'p) state \<Rightarrow> nat \<Rightarrow> nat \<Rightarrow> 'k
    \<Rightarrow> ('v, 'e, 'p) supplier \<Rightarrow> bool \<Rightarrow> ('k, 'v, 'e, 'p) state option" where
  "doCall_run s t c key fn inline =
     (let s1 = s\<lparr>history := EvInvoke c # history s\<rparr> in
      (case fn of
         Returns v e \<Rightarrow>
           Some (s1\<lparr>calls := (calls s)(c := (calls s c)\<lparr>val := v, err := e\<rparr>),
                    threads := (threads s)(t := doCall_deferred c key True False inline)\<rparr>)
       | Panics r stack \<Rightarrow>
           Some (s1\<lparr>calls := (calls s)(c := (calls s c)\<lparr>err := newPanicError T_any stack r\<rparr>),
                    threads := (threads s)(t := doCall_deferred c key False True inline)\<rparr>)
       | Goexits \<Rightarrow>
           Some (s1\<lparr>threads := (threads s)(t := doCall_deferred c key False False inline)\<rparr>)
       | Hangs \<Rightarrow>
           Some (s1\<lparr>threads := (threads s)(t := Hung)\<rparr>)))"

text \<open>
  \<open>doCall\<close>, lines 89 to 119: the outer deferred function. A goroutine that is being
  torn down by \<open>runtime.Goexit\<close> ends after it; otherwise \<open>doCall\<close> returns, to line 46 of
  \<open>Do\<close> when it was called inline and to the end of the goroutine when it was spawned.
  \<open>Done\<close> on a counter that is zero panics. The \<open>panic(e)\<close> of line 109 leaves \<open>Do\<close> on the
  caller's goroutine when \<open>doCall\<close> was called inline, and kills the process when it was
  spawned; \<open>go panic(e)\<close> of line 106 kills the process, and the goroutine stays in
  \<open>select {}\<close> with the mutex held. A send of line 116 that blocks leaves the goroutine
  blocked with the mutex held.
\<close>

definition after_doCall :: "nat \<Rightarrow> bool \<Rightarrow> bool \<Rightarrow> bool \<Rightarrow> ('k, 'v, 'e, 'p) pc" where
  "after_doCall c normalReturn recovered inline =
     (if \<not> normalReturn \<and> \<not> recovered then Goexited
      else if inline then Do_return c else Finished)"

definition doCall_defer :: "'v instantiation0 \<Rightarrow> ('k, 'v, 'e, 'p) state \<Rightarrow> nat \<Rightarrow> nat \<Rightarrow> 'k
    \<Rightarrow> bool \<Rightarrow> bool \<Rightarrow> bool \<Rightarrow> ('k, 'v, 'e, 'p) state option" where
  "doCall_defer I s t c key normalReturn recovered inline =
     (if mu s then None
      else if waitGroup (calls s c) = 0
      then Some (s\<lparr>threads := (threads s)(t := WaitGroupPanic)\<rparr>)
      else (let e = (if \<not> normalReturn \<and> \<not> recovered then errGoexit else err (calls s c));
                cl = (calls s c)\<lparr>err := e, waitGroup := waitGroup (calls s c) - 1\<rparr>;
                s1 = s\<lparr>calls := (calls s)(c := cl),
                       workspaces := (if workspaces s key = Some c
                                      then (workspaces s)(key := None) else workspaces s)\<rparr>
        in if is_panicError (type_B I) e
           then (if length (chans cl) > 0
                 then Some (s1\<lparr>mu := True, crashed := Some e,
                               threads := (threads s)(t := SelectForever)\<rparr>)
                 else Some (s1\<lparr>crashed := (if inline then None else Some e),
                               threads := (threads s)(t := Panicked e)\<rparr>))
           else if e = errGoexit
           then Some (s1\<lparr>threads := (threads s)(t := after_doCall c normalReturn recovered inline)\<rparr>)
           else (case fanout (channels s) (chans cl)
                        \<lparr>rc_value = val cl, Err = err cl, Shared = (dups cl > 0)\<rparr> of
                   (chs, True) \<Rightarrow>
                     Some (s1\<lparr>channels := chs,
                              threads := (threads s)(t := after_doCall c normalReturn recovered inline)\<rparr>)
                 | (chs, False) \<Rightarrow>
                     Some (s1\<lparr>mu := True, channels := chs,
                              threads := (threads s)(t := SendBlocked)\<rparr>))))"

text \<open>\<open>Forget\<close>, lines 149 to 153.\<close>

definition Forget_body :: "('k, 'v, 'e, 'p) state \<Rightarrow> nat \<Rightarrow> 'k \<Rightarrow> ('k, 'v, 'e, 'p) state option" where
  "Forget_body s t key =
     (if mu s then None
      else Some (s\<lparr>workspaces := (workspaces s)(key := None),
                   threads := (threads s)(t := Finished)\<rparr>))"

section \<open>Interleaving\<close>

text \<open>
  What can happen next: a client starts a call of \<open>Do\<close>, \<open>DoChan\<close> or \<open>Forget\<close> on a goroutine
  of its own, a goroutine takes its next stretch, or a client receives from a channel.
\<close>

datatype ('k, 'v, 'e, 'p) action =
    Call_Do 'k "('v, 'e, 'p) supplier"
  | Call_DoChan 'k "('v, 'e, 'p) supplier"
  | Call_Forget 'k
  | Sched nat
  | Recv nat

definition spawn :: "('k, 'v, 'e, 'p) state \<Rightarrow> ('k, 'v, 'e, 'p) pc \<Rightarrow> ('k, 'v, 'e, 'p) state" where
  "spawn s p = s\<lparr>threads := (threads s)(nthreads s := p), nthreads := nthreads s + 1\<rparr>"

fun thread_step :: "'v instantiation0 \<Rightarrow> ('k, 'v, 'e, 'p) state \<Rightarrow> nat \<Rightarrow> ('k, 'v, 'e, 'p) pc
    \<Rightarrow> ('k, 'v, 'e, 'p) state option" where
  "thread_step I s t (Do_entry key fn) = Do_lock I s t key fn"
| "thread_step I s t (Do_wait c) = Do_wake I s t c"
| "thread_step I s t (Do_return c) = Do_ret s t c"
| "thread_step I s t (DoChan_entry key fn) = DoChan_body I s t key fn"
| "thread_step I s t (Forget_entry key) = Forget_body s t key"
| "thread_step I s t (doCall_fn c key fn inline) = doCall_run s t c key fn inline"
| "thread_step I s t (doCall_deferred c key normalReturn recovered inline) =
     doCall_defer I s t c key normalReturn recovered inline"
| "thread_step I s t p = None"

definition recv :: "('k, 'v, 'e, 'p) state \<Rightarrow> nat \<Rightarrow> ('k, 'v, 'e, 'p) state option" where
  "recv s ch =
     (if ch < nchannels s \<and> ch_nrecv (channels s ch) < length (ch_sent (channels s ch))
      then Some (s\<lparr>channels := (channels s)(ch := (channels s ch)\<lparr>ch_nrecv := ch_nrecv (channels s ch) + 1\<rparr>)\<rparr>)
      else None)"

text \<open>One step; \<open>None\<close> when the action cannot happen now. A crashed process does nothing.\<close>

fun step :: "'v instantiation0 \<Rightarrow> ('k, 'v, 'e, 'p) state \<Rightarrow> ('k, 'v, 'e, 'p) action
    \<Rightarrow> ('k, 'v, 'e, 'p) state option" where
  "step I s (Call_Do key fn) = (if crashed s \<noteq> None then None else Some (spawn s (Do_entry key fn)))"
| "step I s (Call_DoChan key fn) = (if crashed s \<noteq> None then None else Some (spawn s (DoChan_entry key fn)))"
| "step I s (Call_Forget key) = (if crashed s \<noteq> None then None else Some (spawn s (Forget_entry key)))"
| "step I s (Sched t) =
     (if crashed s \<noteq> None \<or> \<not> t < nthreads s then None else thread_step I s t (threads s t))"
| "step I s (Recv ch) = (if crashed s \<noteq> None then None else recv s ch)"

text \<open>A schedule is a list of actions; an action that cannot happen is passed over.\<close>

definition do_step :: "'v instantiation0 \<Rightarrow> ('k, 'v, 'e, 'p) state \<Rightarrow> ('k, 'v, 'e, 'p) action
    \<Rightarrow> ('k, 'v, 'e, 'p) state" where
  "do_step I s a = (case step I s a of Some s' \<Rightarrow> s' | None \<Rightarrow> s)"

definition run :: "'v instantiation0 \<Rightarrow> ('k, 'v, 'e, 'p) action list \<Rightarrow> ('k, 'v, 'e, 'p) state" where
  "run I acts = foldl (do_step I) (init I) acts"

inductive reachable :: "'v instantiation0 \<Rightarrow> ('k, 'v, 'e, 'p) state \<Rightarrow> bool" for I where
  reach_init: "reachable I (init I)"
| reach_step: "reachable I s \<Longrightarrow> step I s a = Some s' \<Longrightarrow> reachable I s'"

section \<open>Scenarios\<close>

text \<open>
  Two groups with string keys: \<open>Group[string, any]\<close> and \<open>Group[string, int]\<close>. Values are
  numbers, client errors and panic values are strings.
\<close>

definition Group_any :: "nat instantiation0" where
  "Group_any = \<lparr>type_B = T_any, zero_B = 0\<rparr>"

definition Group_int :: "nat instantiation0" where
  "Group_int = \<lparr>type_B = T_named ''int'', zero_B = 0\<rparr>"

text \<open>A supplier that panics with \<open>"boom"\<close>.\<close>

definition boom :: "(nat, string, string) supplier" where
  "boom = Panics ''boom'' (''goroutine 1 [running]:'' @ CHR 0x0A # ''main.f()'')"

text \<open>\<open>Do("k", boom)\<close> on its own: the call is created, the supplier runs, the deferred
  function runs, and \<open>Do\<close> returns if it can.\<close>

definition panic_alone :: "nat instantiation0 \<Rightarrow> nat \<Rightarrow> (string, nat, string, string) state" where
  "panic_alone I n = run I (take n [Call_Do ''k'' boom, Sched 0, Sched 0, Sched 0, Sched 0])"

text \<open>\<open>Do("k", boom)\<close> with a second \<open>Do("k", _)\<close> that arrives while the first is in
  flight, and wakes after it.\<close>

definition dup_after_panic :: "nat instantiation0 \<Rightarrow> (string, nat, string, string) state" where
  "dup_after_panic I =
     run I [Call_Do ''k'' boom, Sched 0, Call_Do ''k'' boom, Sched 1, Sched 0, Sched 0, Sched 1]"

text \<open>\<open>DoChan("k", boom)\<close> on its own; goroutine 1 is the one of line 73.\<close>

definition panic_chan :: "nat instantiation0 \<Rightarrow> nat \<Rightarrow> (string, nat, string, string) state" where
  "panic_chan I n = run I (take n [Call_DoChan ''k'' boom, Sched 0, Sched 1, Sched 1])"

section \<open>The deferred function, named\<close>

text \<open>
  Names for what the outer deferred function of \<open>doCall\<close> computes: the failure it leaves in
  the record (line 92), the state after \<open>Done\<close> and the conditional \<open>delete\<close> (lines 97 to
  100), the envelope of line 116, and the channel store after a fan-out in which no send
  blocks.
\<close>

definition defer_err :: "('k, 'v, 'e, 'p) state \<Rightarrow> nat \<Rightarrow> bool \<Rightarrow> bool \<Rightarrow> ('e, 'p) error" where
  "defer_err s c normalReturn recovered =
     (if \<not> normalReturn \<and> \<not> recovered then errGoexit else err (calls s c))"

definition defer_state :: "('k, 'v, 'e, 'p) state \<Rightarrow> nat \<Rightarrow> 'k \<Rightarrow> bool \<Rightarrow> bool \<Rightarrow> ('k, 'v, 'e, 'p) state" where
  "defer_state s c key normalReturn recovered =
     s\<lparr>calls := (calls s)(c := (calls s c)\<lparr>err := defer_err s c normalReturn recovered,
                                           waitGroup := waitGroup (calls s c) - 1\<rparr>),
       workspaces := (if workspaces s key = Some c
                      then (workspaces s)(key := None) else workspaces s)\<rparr>"

definition defer_envelope :: "('k, 'v, 'e, 'p) state \<Rightarrow> nat \<Rightarrow> bool \<Rightarrow> bool \<Rightarrow> ('v, 'e, 'p) ResultContainer" where
  "defer_envelope s c normalReturn recovered =
     \<lparr>rc_value = val (calls s c), Err = defer_err s c normalReturn recovered,
      Shared = (dups (calls s c) > 0)\<rparr>"

definition deliver :: "(nat \<Rightarrow> ('v, 'e, 'p) channel) \<Rightarrow> nat list \<Rightarrow> ('v, 'e, 'p) ResultContainer
    \<Rightarrow> (nat \<Rightarrow> ('v, 'e, 'p) channel)" where
  "deliver chs cs r = (\<lambda>ch. if ch \<in> set cs then send (chs ch) r else chs ch)"

text \<open>The call record a goroutine is executing, with the key it was started for.\<close>

fun exec_of :: "('k, 'v, 'e, 'p) pc \<Rightarrow> (nat \<times> 'k) option" where
  "exec_of (doCall_fn c key fn inline) = Some (c, key)"
| "exec_of (doCall_deferred c key normalReturn recovered inline) = Some (c, key)"
| "exec_of p = None"

text \<open>The entry points of the three exported operations.\<close>

fun is_entry :: "('k, 'v, 'e, 'p) pc \<Rightarrow> bool" where
  "is_entry (Do_entry key fn) = True"
| "is_entry (DoChan_entry key fn) = True"
| "is_entry (Forget_entry key) = True"
| "is_entry p = False"

section \<open>Executions\<close>

text \<open>\<open>steps I s s'\<close>: the group gets from \<open>s\<close> to \<open>s'\<close> in some number of steps.\<close>

inductive steps :: "'v instantiation0 \<Rightarrow> ('k, 'v, 'e, 'p) state \<Rightarrow> ('k, 'v, 'e, 'p) state \<Rightarrow> bool"
  for I where
  steps_refl: "steps I s s"
| steps_step: "steps I s s' \<Longrightarrow> step I s' a = Some s'' \<Longrightarrow> steps I s s''"

section \<open>Executions without \<open>Forget\<close>\<close>

text \<open>The step is the body of \<open>Forget(k)\<close>, and it finds an entry to remove.\<close>

fun forgets :: "('k, 'v, 'e, 'p) state \<Rightarrow> ('k, 'v, 'e, 'p) action \<Rightarrow> 'k \<Rightarrow> bool" where
  "forgets s (Sched t) k =
     (t < nthreads s \<and> threads s t = Forget_entry k \<and> workspaces s k \<noteq> None)"
| "forgets s a k = False"

text \<open>The key for which a goroutine is about to invoke a supplier (line 137), and the steps
  that invoke a supplier for \<open>k\<close>.\<close>

fun invoked_key :: "('k, 'v, 'e, 'p) pc \<Rightarrow> 'k option" where
  "invoked_key (doCall_fn c key fn inline) = Some key"
| "invoked_key p = None"

fun invokes :: "('k, 'v, 'e, 'p) state \<Rightarrow> ('k, 'v, 'e, 'p) action \<Rightarrow> 'k \<Rightarrow> bool" where
  "invokes s (Sched t) k = (t < nthreads s \<and> invoked_key (threads s t) = Some k)"
| "invokes s a k = False"

text \<open>
  \<open>steps_without_forget I k s n s'\<close>: the group gets from \<open>s\<close> to \<open>s'\<close> in steps none of which
  is a \<open>Forget(k)\<close> that removes an entry, and \<open>n\<close> of which invoke a supplier for \<open>k\<close>.
\<close>

inductive steps_without_forget :: "'v instantiation0 \<Rightarrow> 'k \<Rightarrow> ('k, 'v, 'e, 'p) state \<Rightarrow> nat
    \<Rightarrow> ('k, 'v, 'e, 'p) state \<Rightarrow> bool"
  for I k where
  swf_refl: "steps_without_forget I k s 0 s"
| swf_step: "steps_without_forget I k s n s' \<Longrightarrow> step I s' a = Some s'' \<Longrightarrow> \<not> forgets s' a k
    \<Longrightarrow> steps_without_forget I k s (if invokes s' a k then Suc n else n) s''"


section \<open>Invariants\<close>

text \<open>Goroutine slots that are not in use hold \<open>Finished\<close>.\<close>

definition inv_threads :: "('k, 'v, 'e, 'p) state \<Rightarrow> bool" where
  "inv_threads s = (\<forall>t. nthreads s \<le> t \<longrightarrow> threads s t = Finished)"

text \<open>A record that is in the registry exists and is not done.\<close>

definition inv_registry :: "('k, 'v, 'e, 'p) state \<Rightarrow> bool" where
  "inv_registry s =
     (\<forall>k c. workspaces s k = Some c \<longrightarrow> c < ncalls s \<and> waitGroup (calls s c) = 1)"

text \<open>A record is registered under one key at most.\<close>

definition inv_injective :: "('k, 'v, 'e, 'p) state \<Rightarrow> bool" where
  "inv_injective s =
     (\<forall>k k' c. workspaces s k = Some c \<and> workspaces s k' = Some c \<longrightarrow> k = k')"

text \<open>
  A record that a goroutine is executing exists and is not done; no two goroutines execute
  the same record; and a record under execution is registered, if at all, under the key
  its executor holds.
\<close>

definition inv_exec :: "('k, 'v, 'e, 'p) state \<Rightarrow> bool" where
  "inv_exec s =
     ((\<forall>t c k. exec_of (threads s t) = Some (c, k) \<longrightarrow> c < ncalls s \<and> waitGroup (calls s c) = 1)
    \<and> (\<forall>t t' c k k'. exec_of (threads s t) = Some (c, k) \<and> exec_of (threads s t') = Some (c, k')
          \<longrightarrow> t = t')
    \<and> (\<forall>t c k k'. exec_of (threads s t) = Some (c, k) \<and> workspaces s k' = Some c \<longrightarrow> k' = k))"

text \<open>
  The channels of a record exist; no channel is registered twice, in one record or in two;
  and nothing has been sent to the channels of a record that is not done.
\<close>

definition inv_chans :: "('k, 'v, 'e, 'p) state \<Rightarrow> bool" where
  "inv_chans s =
     ((\<forall>c ch. c < ncalls s \<and> ch \<in> set (chans (calls s c)) \<longrightarrow> ch < nchannels s)
    \<and> (\<forall>c. c < ncalls s \<longrightarrow> distinct (chans (calls s c)))
    \<and> (\<forall>c c' ch. c < ncalls s \<and> c' < ncalls s \<and> ch \<in> set (chans (calls s c))
          \<and> ch \<in> set (chans (calls s c')) \<longrightarrow> c = c')
    \<and> (\<forall>c ch. c < ncalls s \<and> waitGroup (calls s c) \<noteq> 0 \<and> ch \<in> set (chans (calls s c))
          \<longrightarrow> ch_sent (channels s ch) = []))"

text \<open>Every channel has capacity one, has had at most one value sent to it, and is open.\<close>

definition inv_channel :: "('k, 'v, 'e, 'p) state \<Rightarrow> bool" where
  "inv_channel s =
     (\<forall>ch. ch < nchannels s \<longrightarrow>
        ch_cap (channels s ch) = 1 \<and> length (ch_sent (channels s ch)) \<le> 1
        \<and> \<not> ch_closed (channels s ch) \<and> ch_nrecv (channels s ch) \<le> length (ch_sent (channels s ch)))"

text \<open>
  No goroutine is blocked in a send of the fan-out or has panicked in \<open>Done\<close>, and the
  mutex is held for ever only in a crashed process.
\<close>

definition inv_unblocked :: "('k, 'v, 'e, 'p) state \<Rightarrow> bool" where
  "inv_unblocked s =
     ((\<forall>t. threads s t \<noteq> SendBlocked \<and> threads s t \<noteq> WaitGroupPanic)
    \<and> (mu s \<longrightarrow> crashed s \<noteq> None))"

text \<open>
  What \<open>Do\<close> has returned, and what has been sent to the channels of a record that is done,
  is that record's value and failure, with the flag \<open>dups > 0\<close>; a goroutine at line 46
  holds a record that is done; a waiting duplicate has been counted.
\<close>

definition inv_results :: "('k, 'v, 'e, 'p) state \<Rightarrow> bool" where
  "inv_results s =
     ((\<forall>t c v e sh. threads s t = Returned c v e sh \<longrightarrow>
          c < ncalls s \<and> waitGroup (calls s c) = 0 \<and> v = val (calls s c) \<and> e = err (calls s c)
          \<and> sh = (dups (calls s c) > 0))
    \<and> (\<forall>t c. threads s t = Do_return c \<longrightarrow> c < ncalls s \<and> waitGroup (calls s c) = 0)
    \<and> (\<forall>t c. threads s t = Do_wait c \<longrightarrow> c < ncalls s \<and> dups (calls s c) > 0)
    \<and> (\<forall>c ch r. c < ncalls s \<and> waitGroup (calls s c) = 0 \<and> ch \<in> set (chans (calls s c))
          \<and> r \<in> set (ch_sent (channels s ch)) \<longrightarrow>
          r = \<lparr>rc_value = val (calls s c), Err = err (calls s c), Shared = (dups (calls s c) > 0)\<rparr>))"

text \<open>
  \<open>dups\<close> counts the attachments in the history; the history speaks of existing records
  only; the supplier of a record has been invoked at most once, and not yet when a
  goroutine is about to invoke it.
\<close>

definition inv_history :: "('k, 'v, 'e, 'p) state \<Rightarrow> bool" where
  "inv_history s =
     ((\<forall>c. c < ncalls s \<longrightarrow> dups (calls s c) = count_list (history s) (EvAttach c))
    \<and> (\<forall>c. ncalls s \<le> c \<longrightarrow> EvAttach c \<notin> set (history s) \<and> EvCreate c \<notin> set (history s)
          \<and> EvInvoke c \<notin> set (history s))
    \<and> (\<forall>c. count_list (history s) (EvInvoke c) \<le> 1)
    \<and> (\<forall>t c k fn inl. threads s t = doCall_fn c k fn inl \<longrightarrow> EvInvoke c \<notin> set (history s)))"

definition inv :: "('k, 'v, 'e, 'p) state \<Rightarrow> bool" where
  "inv s = (inv_threads s \<and> inv_registry s \<and> inv_exec s \<and> inv_chans s \<and> inv_channel s
     \<and> inv_unblocked s \<and> inv_results s \<and> inv_history s \<and> inv_injective s)"

section \<open>Counting joiners and results\<close>

text \<open>A return of \<open>Do\<close> from record \<open>c\<close> whose flag is false.\<close>

fun is_unshared_return :: "nat \<Rightarrow> ('k, 'v, 'e, 'p) pc \<Rightarrow> bool" where
  "is_unshared_return c (Returned c' v e sh) = (c' = c \<and> \<not> sh)"
| "is_unshared_return c p = False"

text \<open>The joiners of a record: the caller that created it and those that attached.\<close>

definition joiners :: "('k, 'v, 'e, 'p) state \<Rightarrow> nat \<Rightarrow> nat" where
  "joiners s c = Suc (count_list (history s) (EvAttach c))"

text \<open>
  How many results of record \<open>c\<close> carry the flag false: among what \<open>Do\<close> has returned, and
  among the envelopes sent to the channels of the record.
\<close>

definition unshared_results :: "('k, 'v, 'e, 'p) state \<Rightarrow> nat \<Rightarrow> nat" where
  "unshared_results s c =
     length (filter (is_unshared_return c) (map (threads s) [0..<nthreads s]))
   + length (filter (\<lambda>r. \<not> Shared r) (concat (map (\<lambda>ch. ch_sent (channels s ch)) (chans (calls s c)))))"

section \<open>More scenarios\<close>

text \<open>
  Every scenario is a schedule in \<open>Group[string, any]\<close>, cut after its first \<open>n\<close> actions.
  \<open>Do("k", f)\<close> with \<open>f\<close> calling \<open>runtime.Goexit\<close>, and a duplicate that waits.
\<close>

definition goexit_dup :: "nat \<Rightarrow> (string, nat, string, string) state" where
  "goexit_dup n = run Group_any (take n
     [Call_Do ''k'' Goexits, Sched 0, Call_Do ''k'' Goexits, Sched 1, Sched 0, Sched 0, Sched 1])"

text \<open>\<open>DoChan("k", f)\<close> with \<open>f\<close> calling \<open>runtime.Goexit\<close>.\<close>

definition goexit_chan :: "nat \<Rightarrow> (string, nat, string, string) state" where
  "goexit_chan n = run Group_any (take n [Call_DoChan ''k'' Goexits, Sched 0, Sched 1, Sched 1])"

text \<open>Two callers of \<open>Do("k", f)\<close>, the second while the first is in flight.\<close>

definition two_sync :: "nat \<Rightarrow> (string, nat, string, string) state" where
  "two_sync n = run Group_any (take n
     [Call_Do ''k'' (Returns 42 err_nil), Sched 0, Call_Do ''k'' (Returns 42 err_nil), Sched 1,
      Sched 0, Sched 0, Sched 0, Sched 1])"

text \<open>One caller of \<open>Do("k", f)\<close>.\<close>

definition one_sync :: "nat \<Rightarrow> (string, nat, string, string) state" where
  "one_sync n = run Group_any (take n
     [Call_Do ''k'' (Returns 42 err_nil), Sched 0, Sched 0, Sched 0, Sched 0])"

text \<open>Two callers of \<open>DoChan("k", f)\<close>; goroutine 1 executes, goroutine 2 is the second caller.\<close>

definition two_chan :: "nat \<Rightarrow> (string, nat, string, string) state" where
  "two_chan n = run Group_any (take n
     [Call_DoChan ''k'' (Returns 7 err_nil), Sched 0, Call_DoChan ''k'' (Returns 7 err_nil), Sched 2,
      Sched 1, Sched 1])"

text \<open>
  \<open>Do("k", f1)\<close> is in flight; \<open>Forget("k")\<close> and \<open>Do("k", f2)\<close> are called; \<open>Forget\<close> runs, then
  the second \<open>Do\<close>.
\<close>

definition forget_join :: "nat \<Rightarrow> (string, nat, string, string) state" where
  "forget_join n = run Group_any (take n
     [Call_Do ''k'' (Returns 1 err_nil), Sched 0, Call_Forget ''k'', Call_Do ''k'' (Returns 2 err_nil),
      Sched 1, Sched 2, Sched 0, Sched 2, Sched 0, Sched 2, Sched 0, Sched 2])"

text \<open>The same with \<open>DoChan("k", f2)\<close> as the join after \<open>Forget\<close>; goroutine 3 executes it.\<close>

definition forget_join_chan :: "nat \<Rightarrow> (string, nat, string, string) state" where
  "forget_join_chan n = run Group_any (take n
     [Call_Do ''k'' (Returns 1 err_nil), Sched 0, Call_Forget ''k'',
      Call_DoChan ''k'' (Returns 2 err_nil), Sched 1, Sched 2, Sched 0, Sched 3])"

text \<open>
  \<open>Do("k", f1)\<close> is in flight with a duplicate waiting for it; \<open>Forget("k")\<close> runs, and a
  \<open>Do("k", f2)\<close> starts a second record. The first record is done while the second is in
  flight, a \<open>Do("k", f3)\<close> arrives after that, and everybody returns.
\<close>

definition forget_waiter :: "nat \<Rightarrow> (string, nat, string, string) state" where
  "forget_waiter n = run Group_any (take n
     [Call_Do ''k'' (Returns 1 err_nil), Sched 0, Call_Do ''k'' (Returns 1 err_nil), Sched 1,
      Call_Forget ''k'', Call_Do ''k'' (Returns 2 err_nil), Sched 2, Sched 3, Sched 0, Sched 3,
      Sched 0, Call_Do ''k'' (Returns 3 err_nil), Sched 4, Sched 1, Sched 0, Sched 3, Sched 3,
      Sched 4])"

section \<open>Evaluation\<close>

lemmas step_defs =
  do_step_def init_def spawn_def Do_lock_def Do_wake_def Do_ret_def DoChan_body_def
  Forget_body_def recv_def doCall_run_def doCall_defer_def new_call_def make_chan_def
  newPanicError_def after_doCall_def can_send_def send_def Let_def

lemmas scenario_defs = run_def Group_any_def Group_int_def boom_def

section \<open>The captured panic\<close>

lemma IndexByte_first: "c \<notin> set l \<Longrightarrow> IndexByte (l @ c # r) c = int (length l)"
  by (induction l) (auto simp: Let_def)

lemma newPanicError_strips:
  assumes nl: "CHR 0x0A \<notin> set line1"
  shows "newPanicError B (line1 @ CHR 0x0A # rest) v = panicError B v rest"
proof -
  have "nat (int (length line1) + 1) = Suc (length line1)" by simp
  with nl show ?thesis
    by (simp add: newPanicError_def IndexByte_first Let_def del: of_nat_Suc)
qed

lemma doCall_defer_keeps_recovered_err:
  "doCall_defer I s t c key False True inline = Some s' \<Longrightarrow> err (calls s' c) = err (calls s c)"
  by (auto simp: doCall_defer_def Let_def split: if_splits prod.splits bool.splits)

text \<open>
  C8. When the supplier panics with \<open>v\<close>, and the stack text starts with a line \<open>line1\<close>
  (the one of the form \<open>goroutine N [status]:\<close>), the wrapper stores a \<open>panicError\<close> that
  holds \<open>v\<close> and the stack text without that line; the deferred function leaves it
  stored; and its \<open>Error()\<close> is \<open>v\<close> rendered by \<open>%v\<close>, a blank line, and the stored stack
  text.
\<close>

theorem panic_failure_wraps_value_and_stack:
  assumes nl: "CHR 0x0A \<notin> set line1"
    and run: "doCall_run s t c key (Panics v (line1 @ CHR 0x0A # rest)) inline = Some s1"
    and dfr: "doCall_defer I s1 t c key False True inline = Some s2"
  shows "err (calls s1 c) = panicError T_any v rest
       \<and> threads s1 t = doCall_deferred c key False True inline
       \<and> err (calls s2 c) = panicError T_any v rest
       \<and> Error_of fmt_v (err (calls s2 c)) = Some (fmt_v v @ [CHR 0x0A, CHR 0x0A] @ rest)"
proof -
  from run have s1: "err (calls s1 c) = panicError T_any v rest"
    and t1: "threads s1 t = doCall_deferred c key False True inline"
    by (auto simp: doCall_run_def newPanicError_strips [OF nl])
  from dfr have "err (calls s2 c) = err (calls s1 c)"
    by (rule doCall_defer_keeps_recovered_err)
  with s1 t1 show ?thesis by (simp add: Error_def)
qed

text \<open>C8 on the scenario \<open>panic_alone\<close>: the supplier panics with \<open>"boom"\<close>.\<close>

theorem panic_failure_wraps_value_and_stack_witness:
  "CHR 0x0A \<notin> set ''goroutine 1 [running]:''
   \<and> doCall_run (panic_alone Group_any 2) 0 0 ''k''
        (Panics ''boom'' (''goroutine 1 [running]:'' @ CHR 0x0A # ''main.f()'')) True
        = Some (panic_alone Group_any 3)
   \<and> doCall_defer Group_any (panic_alone Group_any 3) 0 0 ''k'' False True True
        = Some (panic_alone Group_any 4)
   \<and> err (calls (panic_alone Group_any 4) 0) = panicError T_any ''boom'' ''main.f()''
   \<and> Error_of id (err (calls (panic_alone Group_any 4) 0))
        = Some (''boom'' @ [CHR 0x0A, CHR 0x0A] @ ''main.f()'')"
proof -
  have nl: "CHR 0x0A \<notin> set ''goroutine 1 [running]:''" by simp
  have r: "doCall_run (panic_alone Group_any 2) 0 0 ''k''
        (Panics ''boom'' (''goroutine 1 [running]:'' @ CHR 0x0A # ''main.f()'')) True
        = Some (panic_alone Group_any 3)"
    by (simp add: panic_alone_def scenario_defs step_defs)
  have d: "doCall_defer Group_any (panic_alone Group_any 3) 0 0 ''k'' False True True
        = Some (panic_alone Group_any 4)"
    by (simp add: panic_alone_def scenario_defs step_defs)
  from panic_failure_wraps_value_and_stack [OF nl r d, of id] nl r d
  show ?thesis by (simp add: Error_def)
qed

section \<open>The type assertion on the stored failure\<close>

text \<open>
  C2, evaluated. In \<open>Group[string, int]\<close> the supplier of the first \<open>Do("k", _)\<close> panics
  while a second \<open>Do("k", _)\<close> waits. The wrapper stores a \<open>*panicError[any]\<close>; the
  duplicate's assertion \<open>c.err.(*panicError[int])\<close> fails, and the duplicate returns the
  zero value, the stored failure and \<open>true\<close>. In \<open>Group[string, any]\<close> the same schedule
  ends with the duplicate panicking with the stored failure.
\<close>

theorem duplicate_returns_captured_panic_when_B_is_not_any:
  "err (calls (dup_after_panic Group_int) 0) = panicError T_any ''boom'' ''main.f()''
   \<and> waitGroup (calls (dup_after_panic Group_int) 0) = 0
   \<and> threads (dup_after_panic Group_int) 1
        = Returned 0 0 (panicError T_any ''boom'' ''main.f()'') True
   \<and> threads (dup_after_panic Group_any) 1 = Panicked (panicError T_any ''boom'' ''main.f()'')"
  by (simp add: dup_after_panic_def scenario_defs step_defs)

text \<open>
  C3, evaluated. In \<open>Group[string, int]\<close> a panicking supplier is treated as a normal
  return. Called through \<open>Do\<close> with no channel registered, \<open>doCall\<close> returns and \<open>Do\<close>
  returns the stored failure; nothing is re-raised. Called through \<open>DoChan\<close>, the process
  does not crash and the registered channel receives an envelope holding the stored
  failure. In \<open>Group[string, any]\<close> the same schedules end with the panic re-raised on the
  executing goroutine, and with the process crashed and nothing sent.
\<close>

theorem captured_panic_taken_for_normal_return_when_B_is_not_any:
  "threads (panic_alone Group_int 4) 0 = Do_return 0
   \<and> threads (panic_alone Group_int 5) 0
        = Returned 0 0 (panicError T_any ''boom'' ''main.f()'') False
   \<and> crashed (panic_alone Group_int 5) = None
   \<and> workspaces (panic_alone Group_int 4) ''k'' = None
   \<and> threads (panic_chan Group_int 4) 1 = Finished
   \<and> crashed (panic_chan Group_int 4) = None
   \<and> ch_sent (channels (panic_chan Group_int 4) 0)
        = [\<lparr>rc_value = 0, Err = panicError T_any ''boom'' ''main.f()'', Shared = False\<rparr>]
   \<and> threads (panic_alone Group_any 4) 0 = Panicked (panicError T_any ''boom'' ''main.f()'')
   \<and> crashed (panic_chan Group_any 4) = Some (panicError T_any ''boom'' ''main.f()'')
   \<and> threads (panic_chan Group_any 4) 1 = SelectForever
   \<and> ch_sent (channels (panic_chan Group_any 4) 0) = []"
  by (simp add: panic_alone_def panic_chan_def scenario_defs step_defs)

section \<open>Preservation of the invariants\<close>

lemmas inv_defs = inv_def inv_threads_def inv_registry_def inv_exec_def inv_chans_def inv_channel_def
  inv_unblocked_def inv_results_def inv_history_def inv_injective_def

lemma inv_init: "inv (init I)"
  by (simp add: inv_defs init_def new_call_def)

lemma step_elim [consumes 1, case_names spawn recv Do_attach Do_create Do_wake Do_ret
    DoChan_attach DoChan_create Forget run_returns run_panics run_goexits run_hangs
    defer_wgpanic defer_crash defer_repanic defer_goexit defer_deliver defer_blocked]:
  assumes "step I s a = Some s'"
  obtains
    (spawn) p where "crashed s = None" "is_entry p"
      "s' = s\<lparr>threads := (threads s)(nthreads s := p), nthreads := nthreads s + 1\<rparr>"
  | (recv) ch where "crashed s = None" "ch < nchannels s"
      "ch_nrecv (channels s ch) < length (ch_sent (channels s ch))"
      "s' = s\<lparr>channels := (channels s)(ch := (channels s ch)\<lparr>ch_nrecv := ch_nrecv (channels s ch) + 1\<rparr>)\<rparr>"
  | (Do_attach) t key fn c where "crashed s = None" "t < nthreads s" "\<not> mu s"
      "threads s t = Do_entry key fn" "workspaces s key = Some c"
      "s' = s\<lparr>calls := (calls s)(c := (calls s c)\<lparr>dups := dups (calls s c) + 1\<rparr>),
              threads := (threads s)(t := Do_wait c),
              history := EvAttach c # history s\<rparr>"
  | (Do_create) t key fn where "crashed s = None" "t < nthreads s" "\<not> mu s"
      "threads s t = Do_entry key fn" "workspaces s key = None"
      "s' = s\<lparr>calls := (calls s)(ncalls s := (new_call I)\<lparr>waitGroup := 1\<rparr>),
              ncalls := ncalls s + 1,
              workspaces := (workspaces s)(key \<mapsto> ncalls s),
              threads := (threads s)(t := doCall_fn (ncalls s) key fn True),
              history := EvCreate (ncalls s) # history s\<rparr>"
  | (Do_wake) t c where "crashed s = None" "t < nthreads s"
      "threads s t = Do_wait c" "waitGroup (calls s c) = 0"
      "s' = s\<lparr>threads := (threads s)(t :=
          (if is_panicError (type_B I) (err (calls s c)) then Panicked (err (calls s c))
           else if err (calls s c) = errGoexit then Goexited
           else Returned c (val (calls s c)) (err (calls s c)) True))\<rparr>"
  | (Do_ret) t c where "crashed s = None" "t < nthreads s"
      "threads s t = Do_return c"
      "s' = s\<lparr>threads := (threads s)(t :=
         Returned c (val (calls s c)) (err (calls s c)) (dups (calls s c) > 0))\<rparr>"
  | (DoChan_attach) t key fn c where "crashed s = None" "t < nthreads s" "\<not> mu s"
      "threads s t = DoChan_entry key fn" "workspaces s key = Some c"
      "s' = s\<lparr>channels := (channels s)(nchannels s := make_chan 1),
              nchannels := nchannels s + 1,
              calls := (calls s)(c := (calls s c)\<lparr>dups := dups (calls s c) + 1,
                                                    chans := chans (calls s c) @ [nchannels s]\<rparr>),
              threads := (threads s)(t := ReturnedChan (nchannels s)),
              history := EvAttach c # history s\<rparr>"
  | (DoChan_create) t key fn where "crashed s = None" "t < nthreads s" "\<not> mu s"
      "threads s t = DoChan_entry key fn" "workspaces s key = None"
      "s' = s\<lparr>channels := (channels s)(nchannels s := make_chan 1),
              nchannels := nchannels s + 1,
              calls := (calls s)(ncalls s := (new_call I)\<lparr>chans := [nchannels s], waitGroup := 1\<rparr>),
              ncalls := ncalls s + 1,
              workspaces := (workspaces s)(key \<mapsto> ncalls s),
              threads := (threads s)(t := ReturnedChan (nchannels s),
                                     nthreads s := doCall_fn (ncalls s) key fn False),
              nthreads := nthreads s + 1,
              history := EvCreate (ncalls s) # history s\<rparr>"
  | (Forget) t key where "crashed s = None" "t < nthreads s" "\<not> mu s"
      "threads s t = Forget_entry key"
      "s' = s\<lparr>workspaces := (workspaces s)(key := None),
              threads := (threads s)(t := Finished)\<rparr>"
  | (run_returns) t c key v e inline where "crashed s = None" "t < nthreads s"
      "threads s t = doCall_fn c key (Returns v e) inline"
      "s' = s\<lparr>history := EvInvoke c # history s,
              calls := (calls s)(c := (calls s c)\<lparr>val := v, err := e\<rparr>),
              threads := (threads s)(t := doCall_deferred c key True False inline)\<rparr>"
  | (run_panics) t c key r stack inline where "crashed s = None" "t < nthreads s"
      "threads s t = doCall_fn c key (Panics r stack) inline"
      "s' = s\<lparr>history := EvInvoke c # history s,
              calls := (calls s)(c := (calls s c)\<lparr>err := newPanicError T_any stack r\<rparr>),
              threads := (threads s)(t := doCall_deferred c key False True inline)\<rparr>"
  | (run_goexits) t c key inline where "crashed s = None" "t < nthreads s"
      "threads s t = doCall_fn c key Goexits inline"
      "s' = s\<lparr>history := EvInvoke c # history s,
              threads := (threads s)(t := doCall_deferred c key False False inline)\<rparr>"
  | (run_hangs) t c key inline where "crashed s = None" "t < nthreads s"
      "threads s t = doCall_fn c key Hangs inline"
      "s' = s\<lparr>history := EvInvoke c # history s,
              threads := (threads s)(t := Hung)\<rparr>"
  | (defer_wgpanic) t c key nr rc inline where "crashed s = None" "t < nthreads s" "\<not> mu s"
      "threads s t = doCall_deferred c key nr rc inline" "waitGroup (calls s c) = 0"
      "s' = s\<lparr>threads := (threads s)(t := WaitGroupPanic)\<rparr>"
  | (defer_crash) t c key nr rc inline where "crashed s = None" "t < nthreads s" "\<not> mu s"
      "threads s t = doCall_deferred c key nr rc inline" "waitGroup (calls s c) \<noteq> 0"
      "is_panicError (type_B I) (defer_err s c nr rc)" "chans (calls s c) \<noteq> []"
      "s' = (defer_state s c key nr rc)\<lparr>mu := True, crashed := Some (defer_err s c nr rc),
              threads := (threads s)(t := SelectForever)\<rparr>"
  | (defer_repanic) t c key nr rc inline where "crashed s = None" "t < nthreads s" "\<not> mu s"
      "threads s t = doCall_deferred c key nr rc inline" "waitGroup (calls s c) \<noteq> 0"
      "is_panicError (type_B I) (defer_err s c nr rc)" "chans (calls s c) = []"
      "s' = (defer_state s c key nr rc)\<lparr>crashed := (if inline then None else Some (defer_err s c nr rc)),
              threads := (threads s)(t := Panicked (defer_err s c nr rc))\<rparr>"
  | (defer_goexit) t c key nr rc inline where "crashed s = None" "t < nthreads s" "\<not> mu s"
      "threads s t = doCall_deferred c key nr rc inline" "waitGroup (calls s c) \<noteq> 0"
      "\<not> is_panicError (type_B I) (defer_err s c nr rc)" "defer_err s c nr rc = errGoexit"
      "s' = (defer_state s c key nr rc)\<lparr>threads := (threads s)(t := after_doCall c nr rc inline)\<rparr>"
  | (defer_deliver) t c key nr rc inline chs where "crashed s = None" "t < nthreads s" "\<not> mu s"
      "threads s t = doCall_deferred c key nr rc inline" "waitGroup (calls s c) \<noteq> 0"
      "\<not> is_panicError (type_B I) (defer_err s c nr rc)" "defer_err s c nr rc \<noteq> errGoexit"
      "fanout (channels s) (chans (calls s c)) (defer_envelope s c nr rc) = (chs, True)"
      "s' = (defer_state s c key nr rc)\<lparr>channels := chs,
              threads := (threads s)(t := after_doCall c nr rc inline)\<rparr>"
  | (defer_blocked) t c key nr rc inline chs where "crashed s = None" "t < nthreads s" "\<not> mu s"
      "threads s t = doCall_deferred c key nr rc inline" "waitGroup (calls s c) \<noteq> 0"
      "\<not> is_panicError (type_B I) (defer_err s c nr rc)" "defer_err s c nr rc \<noteq> errGoexit"
      "fanout (channels s) (chans (calls s c)) (defer_envelope s c nr rc) = (chs, False)"
      "s' = (defer_state s c key nr rc)\<lparr>mu := True, channels := chs,
              threads := (threads s)(t := SendBlocked)\<rparr>"
proof (cases a)
  case (Call_Do key fn)
  with assms show ?thesis by (intro spawn [of "Do_entry key fn"]) (auto simp: spawn_def split: if_splits)
next
  case (Call_DoChan key fn)
  with assms show ?thesis by (intro spawn [of "DoChan_entry key fn"]) (auto simp: spawn_def split: if_splits)
next
  case (Call_Forget key)
  with assms show ?thesis by (intro spawn [of "Forget_entry key"]) (auto simp: spawn_def split: if_splits)
next
  case (Recv ch)
  with assms show ?thesis by (intro recv [of ch]) (auto simp: recv_def split: if_splits)
next
  case (Sched t)
  with assms have c: "crashed s = None" and t: "t < nthreads s"
    and ts: "thread_step I s t (threads s t) = Some s'"
    by (auto split: if_splits)
  show ?thesis
  proof (cases "threads s t")
    case (Do_entry key fn)
    with ts c t show ?thesis
      by (cases "workspaces s key")
         (auto simp: Do_lock_def Let_def split: if_splits intro: Do_attach Do_create)
  next
    case (Do_wait c0)
    with ts c t show ?thesis
      by (intro Do_wake [of t c0]) (auto simp: Do_wake_def Let_def split: if_splits)
  next
    case (Do_return c0)
    with ts c t show ?thesis
      by (intro Do_ret [of t c0]) (auto simp: Do_ret_def)
  next
    case (DoChan_entry key fn)
    with ts c t show ?thesis
      by (cases "workspaces s key")
         (auto simp: DoChan_body_def Let_def split: if_splits intro: DoChan_attach DoChan_create)
  next
    case (Forget_entry key)
    with ts c t show ?thesis
      by (intro Forget [of t key]) (auto simp: Forget_body_def split: if_splits)
  next
    case (doCall_fn c0 key fn inline)
    with ts c t show ?thesis
      by (cases fn)
         (auto simp: doCall_run_def Let_def intro: run_returns run_panics run_goexits run_hangs)
  next
    case (doCall_deferred c0 key nr rc inline)
    from ts doCall_deferred have nm: "\<not> mu s"
      by (auto simp: doCall_defer_def split: if_splits)
    note dd = doCall_defer_def defer_state_def defer_err_def defer_envelope_def Let_def
    show ?thesis
    proof (cases "waitGroup (calls s c0) = 0")
      case True
      with doCall_deferred ts c t nm show ?thesis
        by (intro defer_wgpanic [of t c0 key nr rc inline]) (auto simp: dd)
    next
      case wg: False
      show ?thesis
      proof (cases "is_panicError (type_B I) (defer_err s c0 nr rc)")
        case True
        with wg doCall_deferred ts c t nm show ?thesis
          by (cases "chans (calls s c0) = []")
             (auto simp: dd intro: defer_crash [of t c0 key nr rc inline]
                defer_repanic [of t c0 key nr rc inline])
      next
        case np: False
        show ?thesis
        proof (cases "defer_err s c0 nr rc = errGoexit")
          case True
          with np wg doCall_deferred ts c t nm show ?thesis
            by (intro defer_goexit [of t c0 key nr rc inline]) (auto simp: dd)
        next
          case ng: False
          obtain chs ok where
            f: "fanout (channels s) (chans (calls s c0)) (defer_envelope s c0 nr rc) = (chs, ok)"
            by (cases "fanout (channels s) (chans (calls s c0)) (defer_envelope s c0 nr rc)")
          with ng np wg doCall_deferred ts c t nm show ?thesis
            by (cases ok)
               (auto simp: dd intro: defer_deliver [of t c0 key nr rc inline chs]
                  defer_blocked [of t c0 key nr rc inline chs])
        qed
      qed
    qed
  qed (use ts in auto)
qed

lemma defer_state_simps [simp]:
  "mu (defer_state s c key nr rc) = mu s"
  "ncalls (defer_state s c key nr rc) = ncalls s"
  "channels (defer_state s c key nr rc) = channels s"
  "nchannels (defer_state s c key nr rc) = nchannels s"
  "threads (defer_state s c key nr rc) = threads s"
  "nthreads (defer_state s c key nr rc) = nthreads s"
  "crashed (defer_state s c key nr rc) = crashed s"
  "history (defer_state s c key nr rc) = history s"
  "calls (defer_state s c key nr rc) =
     (calls s)(c := (calls s c)\<lparr>err := defer_err s c nr rc, waitGroup := waitGroup (calls s c) - 1\<rparr>)"
  "workspaces (defer_state s c key nr rc) =
     (if workspaces s key = Some c then (workspaces s)(key := None) else workspaces s)"
  by (simp_all add: defer_state_def)

lemma fanout_distinct:
  "distinct cs \<Longrightarrow> (\<forall>ch \<in> set cs. can_send (chs ch)) \<Longrightarrow> fanout chs cs r = (deliver chs cs r, True)"
proof (induction cs arbitrary: chs)
  case Nil
  then show ?case by (simp add: deliver_def)
next
  case (Cons c cs)
  have "fanout (chs(c := send (chs c) r)) cs r = (deliver (chs(c := send (chs c) r)) cs r, True)"
    using Cons.prems by (intro Cons.IH) auto
  moreover have "deliver (chs(c := send (chs c) r)) cs r = deliver chs (c # cs) r"
    using Cons.prems by (auto simp: deliver_def fun_eq_iff)
  ultimately show ?case using Cons.prems by simp
qed

lemma executor_facts:
  assumes "inv_exec s" "exec_of (threads s t) = Some (c, k)"
  shows "c < ncalls s" "waitGroup (calls s c) = Suc 0"
    "\<And>t' k'. exec_of (threads s t') = Some (c, k') \<Longrightarrow> t' = t"
    "\<And>k'. workspaces s k' = Some c \<Longrightarrow> k' = k"
proof -
  from assms show "c < ncalls s" "waitGroup (calls s c) = Suc 0"
    unfolding inv_exec_def by auto
  from assms show "\<And>t' k'. exec_of (threads s t') = Some (c, k') \<Longrightarrow> t' = t"
    unfolding inv_exec_def by blast
  from assms show "\<And>k'. workspaces s k' = Some c \<Longrightarrow> k' = k"
    unfolding inv_exec_def by blast
qed

lemma fanout_in_flight:
  assumes "inv_chans s" "inv_channel s" "c < ncalls s" "waitGroup (calls s c) = Suc 0"
  shows "fanout (channels s) (chans (calls s c)) r = (deliver (channels s) (chans (calls s c)) r, True)"
proof (rule fanout_distinct)
  from assms show "distinct (chans (calls s c))" by (simp add: inv_chans_def)
  show "\<forall>ch \<in> set (chans (calls s c)). can_send (channels s ch)"
  proof
    fix ch assume ch: "ch \<in> set (chans (calls s c))"
    from assms(4) have nz: "waitGroup (calls s c) \<noteq> 0" by simp
    from assms(1,3) nz ch have "ch < nchannels s" "ch_sent (channels s ch) = []"
      unfolding inv_chans_def by blast+
    with assms(2) show "can_send (channels s ch)"
      by (auto simp: inv_channel_def can_send_def)
  qed
qed

lemma inv_execI:
  assumes "\<And>t c k. exec_of (threads s t) = Some (c, k) \<Longrightarrow> c < ncalls s"
    and "\<And>t c k. exec_of (threads s t) = Some (c, k) \<Longrightarrow> waitGroup (calls s c) = Suc 0"
    and "\<And>t t' c k k'. exec_of (threads s t) = Some (c, k) \<Longrightarrow>
           exec_of (threads s t') = Some (c, k') \<Longrightarrow> t = t'"
    and "\<And>t c k k'. exec_of (threads s t) = Some (c, k) \<Longrightarrow> workspaces s k' = Some c \<Longrightarrow> k' = k"
  shows "inv_exec s"
  unfolding inv_exec_def using assms by (simp; blast)

lemma inv_exec_frame:
  assumes i: "inv_exec s"
    and e: "\<And>t c k. exec_of (threads s' t) = Some (c, k) \<Longrightarrow> exec_of (threads s t) = Some (c, k)"
    and n: "ncalls s \<le> ncalls s'"
    and w: "\<And>t c k. exec_of (threads s' t) = Some (c, k) \<Longrightarrow> waitGroup (calls s' c) = waitGroup (calls s c)"
    and r: "\<And>k c. workspaces s' k = Some c \<Longrightarrow> workspaces s k = Some c"
  shows "inv_exec s'"
proof (rule inv_execI)
  fix t c k assume a: "exec_of (threads s' t) = Some (c, k)"
  from executor_facts(1) [OF i e [OF a]] n show "c < ncalls s'" by simp
  from executor_facts(2) [OF i e [OF a]] w [OF a] show "waitGroup (calls s' c) = Suc 0" by simp
next
  fix t t' c k k'
  assume "exec_of (threads s' t) = Some (c, k)" "exec_of (threads s' t') = Some (c, k')"
  then have "exec_of (threads s t) = Some (c, k)" "exec_of (threads s t') = Some (c, k')"
    by (auto dest: e)
  then show "t = t'" using executor_facts(3) [OF i] by blast
next
  fix t c k k'
  assume "exec_of (threads s' t) = Some (c, k)" "workspaces s' k' = Some c"
  then have "exec_of (threads s t) = Some (c, k)" "workspaces s k' = Some c"
    by (auto dest: e r)
  then show "k' = k" using executor_facts(4) [OF i] by blast
qed

lemma inv_exec_create:
  assumes i: "inv_exec s" and g: "inv_registry s"
    and e: "\<And>t c k. exec_of (threads s' t) = Some (c, k) \<Longrightarrow>
           (t = tn \<and> c = ncalls s \<and> k = key) \<or> exec_of (threads s t) = Some (c, k)"
    and n: "ncalls s' = ncalls s + 1"
    and w1: "waitGroup (calls s' (ncalls s)) = 1"
    and w: "\<And>c. c \<noteq> ncalls s \<Longrightarrow> waitGroup (calls s' c) = waitGroup (calls s c)"
    and r: "workspaces s' = (workspaces s)(key \<mapsto> ncalls s)"
  shows "inv_exec s'"
proof (rule inv_execI)
  fix t c k assume a: "exec_of (threads s' t) = Some (c, k)"
  from e [OF a] have "c < ncalls s' \<and> waitGroup (calls s' c) = Suc 0"
  proof
    assume "t = tn \<and> c = ncalls s \<and> k = key"
    with n w1 show ?thesis by simp
  next
    assume o: "exec_of (threads s t) = Some (c, k)"
    from executor_facts(1,2) [OF i o] n w [of c] show ?thesis by simp
  qed
  then show "c < ncalls s'" "waitGroup (calls s' c) = Suc 0" by simp_all
next
  fix t t' c k k'
  assume a: "exec_of (threads s' t) = Some (c, k)" and b: "exec_of (threads s' t') = Some (c, k')"
  show "t = t'"
  proof (cases "c = ncalls s")
    case True
    with e [OF a] e [OF b] executor_facts(1) [OF i] show ?thesis by fastforce
  next
    case False
    with e [OF a] e [OF b] have "exec_of (threads s t) = Some (c, k)" "exec_of (threads s t') = Some (c, k')"
      by auto
    then show ?thesis using executor_facts(3) [OF i] by blast
  qed
next
  fix t c k k'
  assume a: "exec_of (threads s' t) = Some (c, k)" and b: "workspaces s' k' = Some c"
  have reg: "\<And>k. workspaces s k = Some c \<Longrightarrow> c < ncalls s"
    using g by (auto simp: inv_registry_def)
  show "k' = k"
  proof (cases "c = ncalls s")
    case True
    with e [OF a] executor_facts(1) [OF i] have "k = key" by fastforce
    moreover have "k' = key"
    proof (rule ccontr)
      assume "k' \<noteq> key"
      with b r have "workspaces s k' = Some c" by simp
      with reg True show False by fastforce
    qed
    ultimately show ?thesis by simp
  next
    case False
    with e [OF a] have o: "exec_of (threads s t) = Some (c, k)" by auto
    from False b r have "workspaces s k' = Some c" by (cases "k' = key") simp_all
    with o show ?thesis using executor_facts(4) [OF i] by blast
  qed
qed

lemma inv_registry_frame:
  assumes "inv_registry s" "ncalls s \<le> ncalls s'"
    and "\<And>k c. workspaces s' k = Some c \<Longrightarrow>
           workspaces s k = Some c \<and> waitGroup (calls s' c) = waitGroup (calls s c)"
  shows "inv_registry s'"
  using assms unfolding inv_registry_def by fastforce

lemma inv_registry_create:
  assumes g: "inv_registry s" and n: "ncalls s' = ncalls s + 1"
    and w1: "waitGroup (calls s' (ncalls s)) = 1"
    and w: "\<And>c. c \<noteq> ncalls s \<Longrightarrow> waitGroup (calls s' c) = waitGroup (calls s c)"
    and r: "workspaces s' = (workspaces s)(key \<mapsto> ncalls s)"
  shows "inv_registry s'"
  unfolding inv_registry_def
proof (intro allI impI)
  fix k c assume a: "workspaces s' k = Some c"
  show "c < ncalls s' \<and> waitGroup (calls s' c) = 1"
  proof (cases "k = key")
    case True
    with a r have "c = ncalls s" by simp
    with n w1 show ?thesis by simp
  next
    case False
    with a r have "workspaces s k = Some c" by simp
    with g have "c < ncalls s" "waitGroup (calls s c) = 1" by (auto simp: inv_registry_def)
    with n w [of c] show ?thesis by simp
  qed
qed

lemma is_entry_exec_of [simp]: "is_entry p \<Longrightarrow> exec_of p = None"
  by (cases p) simp_all

lemma exec_of_after_doCall [simp]: "exec_of (after_doCall c nr rc inline) = None"
  by (simp add: after_doCall_def)

lemma inv_exec_defer:
  assumes i: "inv_exec s"
    and t: "threads s t = doCall_deferred c key nr rc inline"
    and t': "threads s' = (threads s)(t := X)" and X: "exec_of X = None"
    and n: "ncalls s' = ncalls s"
    and c: "calls s' = calls (defer_state s c key nr rc)"
    and r: "workspaces s' = workspaces (defer_state s c key nr rc)"
  shows "inv_exec s'"
proof (rule inv_exec_frame [OF i])
  from t have e: "exec_of (threads s t) = Some (c, key)" by simp
  note ef = executor_facts [OF i e]
  show "exec_of (threads s t1) = Some (c1, k1)" if "exec_of (threads s' t1) = Some (c1, k1)" for t1 c1 k1
    using that t' X by (cases "t1 = t") simp_all
  show "ncalls s \<le> ncalls s'" using n by simp
  show "waitGroup (calls s' c1) = waitGroup (calls s c1)" if a: "exec_of (threads s' t1) = Some (c1, k1)" for t1 c1 k1
  proof -
    from a t' X have "t1 \<noteq> t" "exec_of (threads s t1) = Some (c1, k1)" by (cases "t1 = t"; simp)+
    with ef(3) have "c1 \<noteq> c" by blast
    then show ?thesis by (simp add: c)
  qed
  show "workspaces s k1 = Some c1" if "workspaces s' k1 = Some c1" for k1 c1
    using that by (simp add: r split: if_splits)
qed

lemma inv_exec_step:
  assumes st: "step I s a = Some s'" and i: "inv_exec s" and g: "inv_registry s"
  shows "inv_exec s'"
  using st
proof (cases rule: step_elim)
  case (Do_create t key fn)
  show ?thesis
    by (rule inv_exec_create [OF i g, where tn = t and key = key])
       (auto simp: Do_create new_call_def split: if_splits)
next
  case (DoChan_create t key fn)
  show ?thesis
    by (rule inv_exec_create [OF i g, where tn = "nthreads s" and key = key])
       (auto simp: DoChan_create new_call_def split: if_splits)
next
  case (defer_crash t c key nr rc inline)
  show ?thesis by (rule inv_exec_defer [OF i defer_crash(4), where X = SelectForever]) (simp_all add: defer_crash)
next
  case (defer_repanic t c key nr rc inline)
  show ?thesis by (rule inv_exec_defer [OF i defer_repanic(4), where X = "Panicked (defer_err s c nr rc)"]) (simp_all add: defer_repanic)
next
  case (defer_goexit t c key nr rc inline)
  show ?thesis by (rule inv_exec_defer [OF i defer_goexit(4), where X = "after_doCall c nr rc inline"]) (simp_all add: defer_goexit)
next
  case (defer_deliver t c key nr rc inline chs)
  show ?thesis by (rule inv_exec_defer [OF i defer_deliver(4), where X = "after_doCall c nr rc inline"]) (simp_all add: defer_deliver)
next
  case (defer_blocked t c key nr rc inline chs)
  show ?thesis by (rule inv_exec_defer [OF i defer_blocked(4), where X = SendBlocked]) (simp_all add: defer_blocked)
qed (rule inv_exec_frame [OF i]; auto split: if_splits)+

lemma inv_registry_defer:
  assumes i: "inv_exec s" and g: "inv_registry s"
    and t: "threads s t = doCall_deferred c key nr rc inline"
    and n: "ncalls s' = ncalls s"
    and c: "calls s' = calls (defer_state s c key nr rc)"
    and r: "workspaces s' = workspaces (defer_state s c key nr rc)"
  shows "inv_registry s'"
proof (rule inv_registry_frame [OF g])
  from t have e: "exec_of (threads s t) = Some (c, key)" by simp
  note ef = executor_facts [OF i e]
  show "ncalls s \<le> ncalls s'" using n by simp
  show "workspaces s k1 = Some c1 \<and> waitGroup (calls s' c1) = waitGroup (calls s c1)"
    if a: "workspaces s' k1 = Some c1" for k1 c1
  proof -
    from a have o: "workspaces s k1 = Some c1" by (simp add: r split: if_splits)
    have "c1 \<noteq> c"
    proof
      assume "c1 = c"
      with o ef(4) have "k1 = key" by blast
      with a o \<open>c1 = c\<close> show False by (simp add: r)
    qed
    with o show ?thesis by (simp add: c)
  qed
qed

lemma inv_registry_step:
  assumes st: "step I s a = Some s'" and i: "inv_exec s" and g: "inv_registry s"
  shows "inv_registry s'"
  using st
proof (cases rule: step_elim)
  case (Do_create t key fn)
  show ?thesis
    by (rule inv_registry_create [OF g, where key = key]) (auto simp: Do_create new_call_def)
next
  case (DoChan_create t key fn)
  show ?thesis
    by (rule inv_registry_create [OF g, where key = key]) (auto simp: DoChan_create new_call_def)
next
  case (defer_crash t c key nr rc inline)
  show ?thesis by (rule inv_registry_defer [OF i g defer_crash(4)]) (simp_all add: defer_crash)
next
  case (defer_repanic t c key nr rc inline)
  show ?thesis by (rule inv_registry_defer [OF i g defer_repanic(4)]) (simp_all add: defer_repanic)
next
  case (defer_goexit t c key nr rc inline)
  show ?thesis by (rule inv_registry_defer [OF i g defer_goexit(4)]) (simp_all add: defer_goexit)
next
  case (defer_deliver t c key nr rc inline chs)
  show ?thesis by (rule inv_registry_defer [OF i g defer_deliver(4)]) (simp_all add: defer_deliver)
next
  case (defer_blocked t c key nr rc inline chs)
  show ?thesis by (rule inv_registry_defer [OF i g defer_blocked(4)]) (simp_all add: defer_blocked)
qed (rule inv_registry_frame [OF g]; auto split: if_splits)+

lemma inv_threads_step: "step I s a = Some s' \<Longrightarrow> inv_threads s \<Longrightarrow> inv_threads s'"
  by (cases rule: step_elim) (auto simp: inv_threads_def)

lemma inv_step_elim [consumes 4, case_names spawn recv Do_attach Do_create Do_wake Do_ret
    DoChan_attach DoChan_create Forget run_returns run_panics run_goexits run_hangs
    defer_crash defer_repanic defer_goexit defer_deliver]:
  assumes "step I s a = Some s'" and "inv_exec s" and "inv_chans s" and "inv_channel s"
  obtains
    (spawn) p where "crashed s = None" "is_entry p"
      "s' = s\<lparr>threads := (threads s)(nthreads s := p), nthreads := nthreads s + 1\<rparr>"
  | (recv) ch where "crashed s = None" "ch < nchannels s"
      "ch_nrecv (channels s ch) < length (ch_sent (channels s ch))"
      "s' = s\<lparr>channels := (channels s)(ch := (channels s ch)\<lparr>ch_nrecv := ch_nrecv (channels s ch) + 1\<rparr>)\<rparr>"
  | (Do_attach) t key fn c where "crashed s = None" "t < nthreads s" "\<not> mu s"
      "threads s t = Do_entry key fn" "workspaces s key = Some c"
      "s' = s\<lparr>calls := (calls s)(c := (calls s c)\<lparr>dups := dups (calls s c) + 1\<rparr>),
              threads := (threads s)(t := Do_wait c),
              history := EvAttach c # history s\<rparr>"
  | (Do_create) t key fn where "crashed s = None" "t < nthreads s" "\<not> mu s"
      "threads s t = Do_entry key fn" "workspaces s key = None"
      "s' = s\<lparr>calls := (calls s)(ncalls s := (new_call I)\<lparr>waitGroup := 1\<rparr>),
              ncalls := ncalls s + 1,
              workspaces := (workspaces s)(key \<mapsto> ncalls s),
              threads := (threads s)(t := doCall_fn (ncalls s) key fn True),
              history := EvCreate (ncalls s) # history s\<rparr>"
  | (Do_wake) t c where "crashed s = None" "t < nthreads s"
      "threads s t = Do_wait c" "waitGroup (calls s c) = 0"
      "s' = s\<lparr>threads := (threads s)(t :=
          (if is_panicError (type_B I) (err (calls s c)) then Panicked (err (calls s c))
           else if err (calls s c) = errGoexit then Goexited
           else Returned c (val (calls s c)) (err (calls s c)) True))\<rparr>"
  | (Do_ret) t c where "crashed s = None" "t < nthreads s"
      "threads s t = Do_return c"
      "s' = s\<lparr>threads := (threads s)(t :=
         Returned c (val (calls s c)) (err (calls s c)) (dups (calls s c) > 0))\<rparr>"
  | (DoChan_attach) t key fn c where "crashed s = None" "t < nthreads s" "\<not> mu s"
      "threads s t = DoChan_entry key fn" "workspaces s key = Some c"
      "s' = s\<lparr>channels := (channels s)(nchannels s := make_chan 1),
              nchannels := nchannels s + 1,
              calls := (calls s)(c := (calls s c)\<lparr>dups := dups (calls s c) + 1,
                                                    chans := chans (calls s c) @ [nchannels s]\<rparr>),
              threads := (threads s)(t := ReturnedChan (nchannels s)),
              history := EvAttach c # history s\<rparr>"
  | (DoChan_create) t key fn where "crashed s = None" "t < nthreads s" "\<not> mu s"
      "threads s t = DoChan_entry key fn" "workspaces s key = None"
      "s' = s\<lparr>channels := (channels s)(nchannels s := make_chan 1),
              nchannels := nchannels s + 1,
              calls := (calls s)(ncalls s := (new_call I)\<lparr>chans := [nchannels s], waitGroup := 1\<rparr>),
              ncalls := ncalls s + 1,
              workspaces := (workspaces s)(key \<mapsto> ncalls s),
              threads := (threads s)(t := ReturnedChan (nchannels s),
                                     nthreads s := doCall_fn (ncalls s) key fn False),
              nthreads := nthreads s + 1,
              history := EvCreate (ncalls s) # history s\<rparr>"
  | (Forget) t key where "crashed s = None" "t < nthreads s" "\<not> mu s"
      "threads s t = Forget_entry key"
      "s' = s\<lparr>workspaces := (workspaces s)(key := None),
              threads := (threads s)(t := Finished)\<rparr>"
  | (run_returns) t c key v e inline where "crashed s = None" "t < nthreads s"
      "threads s t = doCall_fn c key (Returns v e) inline"
      "c < ncalls s" "waitGroup (calls s c) = Suc 0"
      "\<And>t' k'. exec_of (threads s t') = Some (c, k') \<Longrightarrow> t' = t"
      "\<And>k'. workspaces s k' = Some c \<Longrightarrow> k' = key"
      "s' = s\<lparr>history := EvInvoke c # history s,
              calls := (calls s)(c := (calls s c)\<lparr>val := v, err := e\<rparr>),
              threads := (threads s)(t := doCall_deferred c key True False inline)\<rparr>"
  | (run_panics) t c key r stack inline where "crashed s = None" "t < nthreads s"
      "threads s t = doCall_fn c key (Panics r stack) inline"
      "c < ncalls s" "waitGroup (calls s c) = Suc 0"
      "\<And>t' k'. exec_of (threads s t') = Some (c, k') \<Longrightarrow> t' = t"
      "\<And>k'. workspaces s k' = Some c \<Longrightarrow> k' = key"
      "s' = s\<lparr>history := EvInvoke c # history s,
              calls := (calls s)(c := (calls s c)\<lparr>err := newPanicError T_any stack r\<rparr>),
              threads := (threads s)(t := doCall_deferred c key False True inline)\<rparr>"
  | (run_goexits) t c key inline where "crashed s = None" "t < nthreads s"
      "threads s t = doCall_fn c key Goexits inline"
      "c < ncalls s" "waitGroup (calls s c) = Suc 0"
      "\<And>t' k'. exec_of (threads s t') = Some (c, k') \<Longrightarrow> t' = t"
      "\<And>k'. workspaces s k' = Some c \<Longrightarrow> k' = key"
      "s' = s\<lparr>history := EvInvoke c # history s,
              threads := (threads s)(t := doCall_deferred c key False False inline)\<rparr>"
  | (run_hangs) t c key inline where "crashed s = None" "t < nthreads s"
      "threads s t = doCall_fn c key Hangs inline"
      "c < ncalls s" "waitGroup (calls s c) = Suc 0"
      "\<And>t' k'. exec_of (threads s t') = Some (c, k') \<Longrightarrow> t' = t"
      "\<And>k'. workspaces s k' = Some c \<Longrightarrow> k' = key"
      "s' = s\<lparr>history := EvInvoke c # history s,
              threads := (threads s)(t := Hung)\<rparr>"
  | (defer_crash) t c key nr rc inline where "crashed s = None" "t < nthreads s" "\<not> mu s"
      "threads s t = doCall_deferred c key nr rc inline"
      "c < ncalls s" "waitGroup (calls s c) = Suc 0"
      "\<And>t' k'. exec_of (threads s t') = Some (c, k') \<Longrightarrow> t' = t"
      "\<And>k'. workspaces s k' = Some c \<Longrightarrow> k' = key"
      "is_panicError (type_B I) (defer_err s c nr rc)" "chans (calls s c) \<noteq> []"
      "s' = (defer_state s c key nr rc)\<lparr>mu := True, crashed := Some (defer_err s c nr rc),
              threads := (threads s)(t := SelectForever)\<rparr>"
  | (defer_repanic) t c key nr rc inline where "crashed s = None" "t < nthreads s" "\<not> mu s"
      "threads s t = doCall_deferred c key nr rc inline"
      "c < ncalls s" "waitGroup (calls s c) = Suc 0"
      "\<And>t' k'. exec_of (threads s t') = Some (c, k') \<Longrightarrow> t' = t"
      "\<And>k'. workspaces s k' = Some c \<Longrightarrow> k' = key"
      "is_panicError (type_B I) (defer_err s c nr rc)" "chans (calls s c) = []"
      "s' = (defer_state s c key nr rc)\<lparr>crashed := (if inline then None else Some (defer_err s c nr rc)),
              threads := (threads s)(t := Panicked (defer_err s c nr rc))\<rparr>"
  | (defer_goexit) t c key nr rc inline where "crashed s = None" "t < nthreads s" "\<not> mu s"
      "threads s t = doCall_deferred c key nr rc inline"
      "c < ncalls s" "waitGroup (calls s c) = Suc 0"
      "\<And>t' k'. exec_of (threads s t') = Some (c, k') \<Longrightarrow> t' = t"
      "\<And>k'. workspaces s k' = Some c \<Longrightarrow> k' = key"
      "\<not> is_panicError (type_B I) (defer_err s c nr rc)" "defer_err s c nr rc = errGoexit"
      "s' = (defer_state s c key nr rc)\<lparr>threads := (threads s)(t := after_doCall c nr rc inline)\<rparr>"
  | (defer_deliver) t c key nr rc inline where "crashed s = None" "t < nthreads s" "\<not> mu s"
      "threads s t = doCall_deferred c key nr rc inline"
      "c < ncalls s" "waitGroup (calls s c) = Suc 0"
      "\<And>t' k'. exec_of (threads s t') = Some (c, k') \<Longrightarrow> t' = t"
      "\<And>k'. workspaces s k' = Some c \<Longrightarrow> k' = key"
      "\<not> is_panicError (type_B I) (defer_err s c nr rc)" "defer_err s c nr rc \<noteq> errGoexit"
      "s' = (defer_state s c key nr rc)\<lparr>channels := deliver (channels s) (chans (calls s c)) (defer_envelope s c nr rc),
              threads := (threads s)(t := after_doCall c nr rc inline)\<rparr>"
  using assms(1)
proof (cases rule: step_elim)
  case (run_returns t c key v e inline)
  then have "exec_of (threads s t) = Some (c, key)" by simp
  from executor_facts [OF assms(2) this] run_returns show ?thesis
    by (intro that(10) [of t c key v e inline]) auto
next
  case (run_panics t c key r stack inline)
  then have "exec_of (threads s t) = Some (c, key)" by simp
  from executor_facts [OF assms(2) this] run_panics show ?thesis
    by (intro that(11) [of t c key r stack inline]) auto
next
  case (run_goexits t c key inline)
  then have "exec_of (threads s t) = Some (c, key)" by simp
  from executor_facts [OF assms(2) this] run_goexits show ?thesis
    by (intro that(12) [of t c key inline]) auto
next
  case (run_hangs t c key inline)
  then have "exec_of (threads s t) = Some (c, key)" by simp
  from executor_facts [OF assms(2) this] run_hangs show ?thesis
    by (intro that(13) [of t c key inline]) auto
next
  case (defer_wgpanic t c key nr rc inline)
  then have "exec_of (threads s t) = Some (c, key)" by simp
  from executor_facts(2) [OF assms(2) this] defer_wgpanic show ?thesis by simp
next
  case (defer_crash t c key nr rc inline)
  then have "exec_of (threads s t) = Some (c, key)" by simp
  from executor_facts [OF assms(2) this] defer_crash show ?thesis
    by (intro that(14) [of t c key nr rc inline]) auto
next
  case (defer_repanic t c key nr rc inline)
  then have "exec_of (threads s t) = Some (c, key)" by simp
  from executor_facts [OF assms(2) this] defer_repanic show ?thesis
    by (intro that(15) [of t c key nr rc inline]) auto
next
  case (defer_goexit t c key nr rc inline)
  then have "exec_of (threads s t) = Some (c, key)" by simp
  from executor_facts [OF assms(2) this] defer_goexit show ?thesis
    by (intro that(16) [of t c key nr rc inline]) auto
next
  case (defer_deliver t c key nr rc inline chs)
  then have e: "exec_of (threads s t) = Some (c, key)" by simp
  note ef = executor_facts [OF assms(2) e]
  from fanout_in_flight [OF assms(3,4) ef(1,2)] defer_deliver(8)
  have "chs = deliver (channels s) (chans (calls s c)) (defer_envelope s c nr rc)" by simp
  with ef defer_deliver show ?thesis
    by (intro that(17) [of t c key nr rc inline]) auto
next
  case (defer_blocked t c key nr rc inline chs)
  then have e: "exec_of (threads s t) = Some (c, key)" by simp
  note ef = executor_facts [OF assms(2) e]
  from fanout_in_flight [OF assms(3,4) ef(1,2)] defer_blocked(8) show ?thesis by simp
qed (use that in blast)+

lemma inv_chansI:
  assumes "\<And>c ch. c < ncalls s \<Longrightarrow> ch \<in> set (chans (calls s c)) \<Longrightarrow> ch < nchannels s"
    and "\<And>c. c < ncalls s \<Longrightarrow> distinct (chans (calls s c))"
    and "\<And>c c' ch. c < ncalls s \<Longrightarrow> c' < ncalls s \<Longrightarrow> ch \<in> set (chans (calls s c))
           \<Longrightarrow> ch \<in> set (chans (calls s c')) \<Longrightarrow> c = c'"
    and "\<And>c ch. c < ncalls s \<Longrightarrow> waitGroup (calls s c) \<noteq> 0 \<Longrightarrow> ch \<in> set (chans (calls s c))
           \<Longrightarrow> ch_sent (channels s ch) = []"
  shows "inv_chans s"
  unfolding inv_chans_def using assms by (simp; blast)

lemma inv_chansD:
  assumes "inv_chans s"
  shows "\<And>c ch. c < ncalls s \<Longrightarrow> ch \<in> set (chans (calls s c)) \<Longrightarrow> ch < nchannels s"
    and "\<And>c. c < ncalls s \<Longrightarrow> distinct (chans (calls s c))"
    and "\<And>c c' ch. c < ncalls s \<Longrightarrow> c' < ncalls s \<Longrightarrow> ch \<in> set (chans (calls s c))
           \<Longrightarrow> ch \<in> set (chans (calls s c')) \<Longrightarrow> c = c'"
    and "\<And>c ch. c < ncalls s \<Longrightarrow> waitGroup (calls s c) \<noteq> 0 \<Longrightarrow> ch \<in> set (chans (calls s c))
           \<Longrightarrow> ch_sent (channels s ch) = []"
  using assms unfolding inv_chans_def by (simp; blast)+

lemma inv_chans_frame:
  assumes i: "inv_chans s" and n: "ncalls s' = ncalls s" and m: "nchannels s \<le> nchannels s'"
    and c: "\<And>c. c < ncalls s \<Longrightarrow> chans (calls s' c) = chans (calls s c)"
    and w: "\<And>c ch. c < ncalls s \<Longrightarrow> waitGroup (calls s' c) \<noteq> 0 \<Longrightarrow> ch \<in> set (chans (calls s c))
           \<Longrightarrow> waitGroup (calls s c) \<noteq> 0 \<and> ch_sent (channels s' ch) = ch_sent (channels s ch)"
  shows "inv_chans s'"
proof (rule inv_chansI)
  note d = inv_chansD [OF i]
  show "ch < nchannels s'" if "c1 < ncalls s'" "ch \<in> set (chans (calls s' c1))" for c1 ch
    using that d(1) [of c1 ch] n m c [of c1] by simp
  show "distinct (chans (calls s' c1))" if "c1 < ncalls s'" for c1
    using that d(2) [of c1] n c [of c1] by simp
  show "c1 = c2" if "c1 < ncalls s'" "c2 < ncalls s'" "ch \<in> set (chans (calls s' c1))"
    "ch \<in> set (chans (calls s' c2))" for c1 c2 ch
    using that d(3) [of c1 c2 ch] n c [of c1] c [of c2] by simp
  show "ch_sent (channels s' ch) = []" if "c1 < ncalls s'" "waitGroup (calls s' c1) \<noteq> 0"
    "ch \<in> set (chans (calls s' c1))" for c1 ch
    using that d(4) [of c1 ch] n c [of c1] w [of c1 ch] by simp
qed

lemma inv_chans_defer:
  assumes i: "inv_chans s" and cn: "c < ncalls s" and wc: "waitGroup (calls s c) = Suc 0"
    and n: "ncalls s' = ncalls s" and m: "nchannels s' = nchannels s"
    and c: "calls s' = calls (defer_state s c key nr rc)"
    and h: "channels s' = channels s \<or> channels s' = deliver (channels s) (chans (calls s c)) r"
  shows "inv_chans s'"
proof (rule inv_chans_frame [OF i n])
  note d = inv_chansD [OF i]
  show "nchannels s \<le> nchannels s'" using m by simp
  show "chans (calls s' c1) = chans (calls s c1)" for c1 by (simp add: c)
  show "waitGroup (calls s c1) \<noteq> 0 \<and> ch_sent (channels s' ch) = ch_sent (channels s ch)"
    if a: "c1 < ncalls s" "waitGroup (calls s' c1) \<noteq> 0" "ch \<in> set (chans (calls s c1))" for c1 ch
  proof -
    from a(2) wc have ne: "c1 \<noteq> c" by (auto simp: c)
    with a(2) have w: "waitGroup (calls s c1) \<noteq> 0" by (simp add: c)
    from ne d(3) [OF a(1) cn a(3)] have "ch \<notin> set (chans (calls s c))" by blast
    with h have "channels s' ch = channels s ch" by (auto simp: deliver_def)
    with w show ?thesis by simp
  qed
qed

lemma inv_chans_step:
  assumes st: "step I s a = Some s'" and ie: "inv_exec s" and i: "inv_chans s" and ic: "inv_channel s"
    and g: "inv_registry s"
  shows "inv_chans s'"
  using st ie i ic
proof (cases rule: inv_step_elim)
  case (Do_create t key fn)
  note d = inv_chansD [OF i]
  show ?thesis
    by (rule inv_chansI) (auto simp: Do_create new_call_def less_Suc_eq dest: d split: if_splits)
next
  case (DoChan_attach t key fn c)
  note d = inv_chansD [OF i]
  from g DoChan_attach(5) have c: "c < ncalls s" "waitGroup (calls s c) = Suc 0"
    by (auto simp: inv_registry_def)
  show ?thesis
    by (rule inv_chansI)
       (auto simp: DoChan_attach make_chan_def less_Suc_eq dest: d split: if_splits)
next
  case (DoChan_create t key fn)
  note d = inv_chansD [OF i]
  show ?thesis
    by (rule inv_chansI)
       (auto simp: DoChan_create new_call_def make_chan_def less_Suc_eq dest: d split: if_splits)
next
  case (defer_crash t c key nr rc inline)
  show ?thesis
    by (rule inv_chans_defer [OF i defer_crash(5,6), where key = key and nr = nr and rc = rc])
       (simp_all add: defer_crash)
next
  case (defer_repanic t c key nr rc inline)
  show ?thesis
    by (rule inv_chans_defer [OF i defer_repanic(5,6), where key = key and nr = nr and rc = rc])
       (simp_all add: defer_repanic)
next
  case (defer_goexit t c key nr rc inline)
  show ?thesis
    by (rule inv_chans_defer [OF i defer_goexit(5,6), where key = key and nr = nr and rc = rc])
       (simp_all add: defer_goexit)
next
  case (defer_deliver t c key nr rc inline)
  show ?thesis
    by (rule inv_chans_defer [OF i defer_deliver(5,6), where r = "defer_envelope s c nr rc"
          and key = key and nr = nr and rc = rc])
       (simp_all add: defer_deliver)
qed (rule inv_chans_frame [OF i]; auto split: if_splits)+

lemma is_entryE:
  assumes "is_entry p"
  obtains key fn where "p = Do_entry key fn" | key fn where "p = DoChan_entry key fn"
    | key where "p = Forget_entry key"
  using assms by (cases p) auto

lemma inv_channel_step:
  assumes st: "step I s a = Some s'" and ie: "inv_exec s" and i: "inv_chans s" and ic: "inv_channel s"
  shows "inv_channel s'"
  using st ie i ic
proof (cases rule: inv_step_elim)
  case (defer_deliver t c key nr rc inline)
  from defer_deliver(6) have "waitGroup (calls s c) \<noteq> 0" by simp
  note d = inv_chansD(4) [OF i defer_deliver(5) this]
  from ic show ?thesis
    by (auto simp: inv_channel_def defer_deliver deliver_def send_def d)
qed (use ic in \<open>auto simp: inv_channel_def make_chan_def less_Suc_eq\<close>)

lemma inv_unblocked_step:
  assumes st: "step I s a = Some s'" and ie: "inv_exec s" and i: "inv_chans s" and ic: "inv_channel s"
    and iu: "inv_unblocked s"
  shows "inv_unblocked s'"
  using st ie i ic
  by (cases rule: inv_step_elim)
     (use iu in \<open>auto simp: inv_unblocked_def after_doCall_def elim: is_entryE\<close>)

lemma inv_historyD:
  assumes "inv_history s"
  shows "\<And>c. c < ncalls s \<Longrightarrow> dups (calls s c) = count_list (history s) (EvAttach c)"
    and "\<And>c. ncalls s \<le> c \<Longrightarrow> EvAttach c \<notin> set (history s)"
    and "\<And>c. ncalls s \<le> c \<Longrightarrow> EvCreate c \<notin> set (history s)"
    and "\<And>c. ncalls s \<le> c \<Longrightarrow> EvInvoke c \<notin> set (history s)"
    and "\<And>c. count_list (history s) (EvInvoke c) \<le> Suc 0"
    and "\<And>t c k fn inl. threads s t = doCall_fn c k fn inl \<Longrightarrow> EvInvoke c \<notin> set (history s)"
  using assms unfolding inv_history_def by (simp; blast)+

lemma inv_historyI:
  assumes "\<And>c. c < ncalls s \<Longrightarrow> dups (calls s c) = count_list (history s) (EvAttach c)"
    and "\<And>c. ncalls s \<le> c \<Longrightarrow> EvAttach c \<notin> set (history s)"
    and "\<And>c. ncalls s \<le> c \<Longrightarrow> EvCreate c \<notin> set (history s)"
    and "\<And>c. ncalls s \<le> c \<Longrightarrow> EvInvoke c \<notin> set (history s)"
    and "\<And>c. count_list (history s) (EvInvoke c) \<le> Suc 0"
    and "\<And>t c k fn inl. threads s t = doCall_fn c k fn inl \<Longrightarrow> EvInvoke c \<notin> set (history s)"
  shows "inv_history s"
  unfolding inv_history_def using assms by (simp; blast)

lemma inv_history_run:
  assumes h: "inv_history s"
    and t: "threads s t = doCall_fn c key fn inline"
    and u: "\<And>t' k'. exec_of (threads s t') = Some (c, k') \<Longrightarrow> t' = t"
    and cn: "c < ncalls s"
    and n: "ncalls s' = ncalls s" and hs: "history s' = EvInvoke c # history s"
    and d: "\<And>c. dups (calls s' c) = dups (calls s c)"
    and t': "threads s' = (threads s)(t := X)" and X: "\<And>c k fn inl. X \<noteq> doCall_fn c k fn inl"
  shows "inv_history s'"
proof (rule inv_historyI)
  note hd = inv_historyD [OF h]
  show "dups (calls s' c1) = count_list (history s') (EvAttach c1)" if "c1 < ncalls s'" for c1
    using that hd(1) [of c1] by (simp add: n hs d)
  show "EvAttach c1 \<notin> set (history s')" if "ncalls s' \<le> c1" for c1
    using that hd(2) [of c1] by (simp add: n hs)
  show "EvCreate c1 \<notin> set (history s')" if "ncalls s' \<le> c1" for c1
    using that hd(3) [of c1] by (simp add: n hs)
  show "EvInvoke c1 \<notin> set (history s')" if "ncalls s' \<le> c1" for c1
    using that hd(4) [of c1] cn by (auto simp: n hs)
  show "count_list (history s') (EvInvoke c1) \<le> Suc 0" for c1
    using hd(5) [of c1] hd(6) [OF t] by (auto simp: hs count_list_0_iff)
  show "EvInvoke c1 \<notin> set (history s')" if a: "threads s' t1 = doCall_fn c1 k1 fn1 inl1" for t1 c1 k1 fn1 inl1
  proof -
    from a t' X have ne: "t1 \<noteq> t" and o: "threads s t1 = doCall_fn c1 k1 fn1 inl1"
      by (cases "t1 = t"; simp)+
    from o have "exec_of (threads s t1) = Some (c1, k1)" by simp
    with u [of t1 k1] ne have "c1 \<noteq> c" by auto
    with hd(6) [OF o] show ?thesis by (simp add: hs)
  qed
qed

lemma inv_history_step:
  assumes st: "step I s a = Some s'" and ie: "inv_exec s" and i: "inv_chans s" and ic: "inv_channel s"
    and g: "inv_registry s" and h: "inv_history s"
  shows "inv_history s'"
  using st ie i ic
proof (cases rule: inv_step_elim)
  case (Do_attach t key fn c)
  from g Do_attach(5) have c: "c < ncalls s" by (auto simp: inv_registry_def)
  note hd = inv_historyD [OF h]
  show ?thesis
    by (rule inv_historyI) (use c hd in \<open>auto simp: Do_attach split: if_splits\<close>)
next
  case (DoChan_attach t key fn c)
  from g DoChan_attach(5) have c: "c < ncalls s" by (auto simp: inv_registry_def)
  note hd = inv_historyD [OF h]
  show ?thesis
    by (rule inv_historyI) (use c hd in \<open>auto simp: DoChan_attach split: if_splits\<close>)
next
  case (Do_create t key fn)
  note hd = inv_historyD [OF h]
  show ?thesis
    by (rule inv_historyI)
       (use hd in \<open>auto simp: Do_create new_call_def less_Suc_eq count_list_0_iff split: if_splits\<close>)
next
  case (DoChan_create t key fn)
  note hd = inv_historyD [OF h]
  show ?thesis
    by (rule inv_historyI)
       (use hd in \<open>auto simp: DoChan_create new_call_def less_Suc_eq count_list_0_iff split: if_splits\<close>)
next
  case (run_returns t c key v e inline)
  show ?thesis
    by (rule inv_history_run [OF h run_returns(3,6,4), where X = "doCall_deferred c key True False inline"])
       (simp_all add: run_returns)
next
  case (run_panics t c key r stack inline)
  show ?thesis
    by (rule inv_history_run [OF h run_panics(3,6,4), where X = "doCall_deferred c key False True inline"])
       (simp_all add: run_panics)
next
  case (run_goexits t c key inline)
  show ?thesis
    by (rule inv_history_run [OF h run_goexits(3,6,4), where X = "doCall_deferred c key False False inline"])
       (simp_all add: run_goexits)
next
  case (run_hangs t c key inline)
  show ?thesis
    by (rule inv_history_run [OF h run_hangs(3,6,4), where X = Hung])
       (simp_all add: run_hangs)
qed (rule inv_historyI; use inv_historyD [OF h] in \<open>auto simp: after_doCall_def elim: is_entryE split: if_splits\<close>)+

lemma inv_resultsD:
  assumes "inv_results s"
  shows "\<And>t c v e sh. threads s t = Returned c v e sh \<Longrightarrow>
          c < ncalls s \<and> waitGroup (calls s c) = 0 \<and> v = val (calls s c) \<and> e = err (calls s c)
          \<and> sh = (dups (calls s c) > 0)"
    and "\<And>t c. threads s t = Do_return c \<Longrightarrow> c < ncalls s \<and> waitGroup (calls s c) = 0"
    and "\<And>t c. threads s t = Do_wait c \<Longrightarrow> c < ncalls s \<and> dups (calls s c) > 0"
    and "\<And>c ch r. c < ncalls s \<Longrightarrow> waitGroup (calls s c) = 0 \<Longrightarrow> ch \<in> set (chans (calls s c))
          \<Longrightarrow> r \<in> set (ch_sent (channels s ch)) \<Longrightarrow>
          r = \<lparr>rc_value = val (calls s c), Err = err (calls s c), Shared = (dups (calls s c) > 0)\<rparr>"
  using assms unfolding inv_results_def by blast+

lemma inv_resultsI:
  assumes "\<And>t c v e sh. threads s t = Returned c v e sh \<Longrightarrow>
          c < ncalls s \<and> waitGroup (calls s c) = 0 \<and> v = val (calls s c) \<and> e = err (calls s c)
          \<and> sh = (dups (calls s c) > 0)"
    and "\<And>t c. threads s t = Do_return c \<Longrightarrow> c < ncalls s \<and> waitGroup (calls s c) = 0"
    and "\<And>t c. threads s t = Do_wait c \<Longrightarrow> c < ncalls s \<and> dups (calls s c) > 0"
    and "\<And>c ch r. c < ncalls s \<Longrightarrow> waitGroup (calls s c) = 0 \<Longrightarrow> ch \<in> set (chans (calls s c))
          \<Longrightarrow> r \<in> set (ch_sent (channels s ch)) \<Longrightarrow>
          r = \<lparr>rc_value = val (calls s c), Err = err (calls s c), Shared = (dups (calls s c) > 0)\<rparr>"
  shows "inv_results s"
  unfolding inv_results_def using assms by blast

text \<open>A step that completes no call and leaves completed calls alone.\<close>

lemma inv_results_frame:
  assumes i: "inv_results s" and ic: "inv_chans s"
    and T1: "\<And>t c v e sh. threads s' t = Returned c v e sh \<Longrightarrow>
          threads s t = Returned c v e sh \<or>
          (c < ncalls s \<and> waitGroup (calls s c) = 0 \<and> v = val (calls s c) \<and> e = err (calls s c)
           \<and> sh = (dups (calls s c) > 0))"
    and T2: "\<And>t c. threads s' t = Do_return c \<Longrightarrow> threads s t = Do_return c"
    and T3: "\<And>t c. threads s' t = Do_wait c \<Longrightarrow>
          threads s t = Do_wait c \<or> (c < ncalls s \<and> dups (calls s' c) > 0)"
    and N: "ncalls s \<le> ncalls s'"
    and C: "\<And>c. c < ncalls s \<Longrightarrow> waitGroup (calls s c) = 0 \<Longrightarrow> calls s' c = calls s c"
    and W: "\<And>c. c < ncalls s' \<Longrightarrow> waitGroup (calls s' c) = 0 \<Longrightarrow>
          c < ncalls s \<and> waitGroup (calls s c) = 0"
    and D: "\<And>c. c < ncalls s \<Longrightarrow> dups (calls s c) \<le> dups (calls s' c)"
    and H: "\<And>ch. ch < nchannels s \<Longrightarrow> ch_sent (channels s' ch) = ch_sent (channels s ch)"
  shows "inv_results s'"
proof (rule inv_resultsI)
  note d = inv_resultsD [OF i]
  show "c < ncalls s' \<and> waitGroup (calls s' c) = 0 \<and> v = val (calls s' c) \<and> e = err (calls s' c)
          \<and> sh = (dups (calls s' c) > 0)" if a: "threads s' t = Returned c v e sh" for t c v e sh
  proof -
    from T1 [OF a] d(1) [of t c v e sh]
    have o: "c < ncalls s \<and> waitGroup (calls s c) = 0 \<and> v = val (calls s c) \<and> e = err (calls s c)
           \<and> sh = (dups (calls s c) > 0)" by blast
    with C [of c] N show ?thesis by simp
  qed
  show "c < ncalls s' \<and> waitGroup (calls s' c) = 0" if a: "threads s' t = Do_return c" for t c
    using d(2) [OF T2 [OF a]] C [of c] N by simp
  show "c < ncalls s' \<and> dups (calls s' c) > 0" if a: "threads s' t = Do_wait c" for t c
    using T3 [OF a] d(3) [of t c] D [of c] N by fastforce
  show "r = \<lparr>rc_value = val (calls s' c), Err = err (calls s' c), Shared = (dups (calls s' c) > 0)\<rparr>"
    if a: "c < ncalls s'" "waitGroup (calls s' c) = 0" "ch \<in> set (chans (calls s' c))"
      "r \<in> set (ch_sent (channels s' ch))" for c ch r
  proof -
    from W [OF a(1,2)] have o: "c < ncalls s" "waitGroup (calls s c) = 0" by simp_all
    from C [OF o] have e: "calls s' c = calls s c" .
    with a(3) inv_chansD(1) [OF ic o(1)] have "ch < nchannels s" by simp
    with H a(4) have "r \<in> set (ch_sent (channels s ch))" by simp
    with d(4) [OF o] a(3) e show ?thesis by simp
  qed
qed

lemma inv_results_defer:
  assumes i: "inv_results s" and ic: "inv_chans s"
    and t: "threads s t = doCall_deferred c key nr rc inline"
    and cn: "c < ncalls s" and wc: "waitGroup (calls s c) = Suc 0"
    and t': "threads s' = (threads s)(t := X)"
    and X: "X = Do_return c \<or> X = Goexited \<or> X = Finished \<or> X = SelectForever \<or> (\<exists>e. X = Panicked e)"
    and n: "ncalls s' = ncalls s"
    and c: "calls s' = calls (defer_state s c key nr rc)"
    and h: "channels s' = channels s \<or>
            channels s' = deliver (channels s) (chans (calls s c)) (defer_envelope s c nr rc)"
  shows "inv_results s'"
proof (rule inv_resultsI)
  note d = inv_resultsD [OF i]
  note dc = inv_chansD [OF ic]
  have other: "calls s' c1 = calls s c1" if "waitGroup (calls s c1) = 0" for c1
    using that wc by (auto simp: c)
  show "c1 < ncalls s' \<and> waitGroup (calls s' c1) = 0 \<and> v = val (calls s' c1) \<and> e = err (calls s' c1)
          \<and> sh = (dups (calls s' c1) > 0)" if a: "threads s' t1 = Returned c1 v e sh" for t1 c1 v e sh
  proof -
    from a t' X have "threads s t1 = Returned c1 v e sh" by (cases "t1 = t") auto
    from d(1) [OF this] other [of c1] n show ?thesis by simp
  qed
  show "c1 < ncalls s' \<and> waitGroup (calls s' c1) = 0" if a: "threads s' t1 = Do_return c1" for t1 c1
  proof (cases "t1 = t")
    case True
    with a t' X have "c1 = c" by auto
    with cn wc n show ?thesis by (simp add: c)
  next
    case False
    with a t' have "threads s t1 = Do_return c1" by simp
    from d(2) [OF this] other [of c1] n show ?thesis by simp
  qed
  show "c1 < ncalls s' \<and> dups (calls s' c1) > 0" if a: "threads s' t1 = Do_wait c1" for t1 c1
  proof -
    from a t' X have "threads s t1 = Do_wait c1" by (cases "t1 = t") auto
    from d(3) [OF this] n show ?thesis by (auto simp: c)
  qed
  show "r = \<lparr>rc_value = val (calls s' c1), Err = err (calls s' c1), Shared = (dups (calls s' c1) > 0)\<rparr>"
    if a: "c1 < ncalls s'" "waitGroup (calls s' c1) = 0" "ch \<in> set (chans (calls s' c1))"
      "r \<in> set (ch_sent (channels s' ch))" for c1 ch r
  proof (cases "c1 = c")
    case True
    with a(3) have m: "ch \<in> set (chans (calls s c))" by (simp add: c)
    from wc have "waitGroup (calls s c) \<noteq> 0" by simp
    from dc(4) [OF cn this m] have e: "ch_sent (channels s ch) = []" .
    from h a(4) e m have "r = defer_envelope s c nr rc"
      by (auto simp: deliver_def send_def)
    with True show ?thesis by (simp add: c defer_envelope_def)
  next
    case False
    with a have o: "c1 < ncalls s" "waitGroup (calls s c1) = 0" "ch \<in> set (chans (calls s c1))"
      by (simp_all add: c n)
    from False dc(3) [OF o(1) cn o(3)] have "ch \<notin> set (chans (calls s c))" by blast
    with h have "channels s' ch = channels s ch" by (auto simp: deliver_def)
    with a(4) d(4) [OF o] False show ?thesis by (simp add: c)
  qed
qed

lemma after_doCall_cases:
  "after_doCall c nr rc inline = Do_return c \<or> after_doCall c nr rc inline = Goexited
   \<or> after_doCall c nr rc inline = Finished"
  by (simp add: after_doCall_def)

lemma inv_results_step:
  assumes st: "step I s a = Some s'" and ie: "inv_exec s" and i: "inv_chans s" and ic: "inv_channel s"
    and g: "inv_registry s" and r: "inv_results s"
  shows "inv_results s'"
  using st ie i ic
proof (cases rule: inv_step_elim)
  case (defer_crash t c key nr rc inline)
  show ?thesis
    by (rule inv_results_defer [OF r i defer_crash(4,5,6), where X = SelectForever])
       (simp_all add: defer_crash)
next
  case (defer_repanic t c key nr rc inline)
  show ?thesis
    by (rule inv_results_defer [OF r i defer_repanic(4,5,6), where X = "Panicked (defer_err s c nr rc)"])
       (simp_all add: defer_repanic)
next
  case (defer_goexit t c key nr rc inline)
  show ?thesis
    by (rule inv_results_defer [OF r i defer_goexit(4,5,6), where X = "after_doCall c nr rc inline"])
       (use after_doCall_cases [of c nr rc inline] in \<open>auto simp: defer_goexit\<close>)
next
  case (defer_deliver t c key nr rc inline)
  show ?thesis
    by (rule inv_results_defer [OF r i defer_deliver(4,5,6), where X = "after_doCall c nr rc inline"])
       (use after_doCall_cases [of c nr rc inline] in \<open>auto simp: defer_deliver\<close>)
next
  case (Do_attach t key fn c)
  from g Do_attach(5) have c: "c < ncalls s" "waitGroup (calls s c) = Suc 0"
    by (auto simp: inv_registry_def)
  show ?thesis
    by (rule inv_results_frame [OF r i]) (use c in \<open>auto simp: Do_attach split: if_splits\<close>)
next
  case (DoChan_attach t key fn c)
  from g DoChan_attach(5) have c: "c < ncalls s" "waitGroup (calls s c) = Suc 0"
    by (auto simp: inv_registry_def)
  show ?thesis
    by (rule inv_results_frame [OF r i]) (use c in \<open>auto simp: DoChan_attach split: if_splits\<close>)
next
  case (Do_wake t c)
  from inv_resultsD(3) [OF r Do_wake(3)] have c: "c < ncalls s" "dups (calls s c) > 0" by simp_all
  show ?thesis
    by (rule inv_results_frame [OF r i]) (use c Do_wake(4) in \<open>auto simp: Do_wake split: if_splits\<close>)
next
  case (Do_ret t c)
  from inv_resultsD(2) [OF r Do_ret(3)] have c: "c < ncalls s" "waitGroup (calls s c) = 0" by simp_all
  show ?thesis
    by (rule inv_results_frame [OF r i]) (use c in \<open>auto simp: Do_ret split: if_splits\<close>)
qed (rule inv_results_frame [OF r i];
     auto simp: new_call_def less_Suc_eq elim: is_entryE split: if_splits)+

lemma inv_injective_step:
  assumes st: "step I s a = Some s'" and g: "inv_registry s" and j: "inv_injective s"
  shows "inv_injective s'"
proof -
  have fresh: "workspaces s k \<noteq> Some (ncalls s)" for k
    using g by (auto simp: inv_registry_def)
  from st show ?thesis
    by (cases rule: step_elim) (use j fresh in \<open>auto simp: inv_injective_def split: if_splits\<close>)
qed

lemma inv_step:
  assumes i: "inv s" and st: "step I s a = Some s'"
  shows "inv s'"
proof -
  from i have t: "inv_threads s" and g: "inv_registry s" and e: "inv_exec s" and c: "inv_chans s"
    and h: "inv_channel s" and u: "inv_unblocked s" and r: "inv_results s" and y: "inv_history s"
    and j: "inv_injective s"
    by (simp_all add: inv_def)
  show ?thesis
    unfolding inv_def
    using inv_threads_step [OF st t] inv_registry_step [OF st e g] inv_exec_step [OF st e g]
      inv_chans_step [OF st e c h g] inv_channel_step [OF st e c h]
      inv_unblocked_step [OF st e c h u] inv_results_step [OF st e c h g r]
      inv_history_step [OF st e c h g y] inv_injective_step [OF st g j]
    by simp
qed

lemma reachable_inv: "reachable I s \<Longrightarrow> inv s"
  by (induction rule: reachable.induct) (auto intro: inv_init inv_step)

lemma reachable_do_step: "reachable I s \<Longrightarrow> reachable I (do_step I s a)"
  by (auto simp: do_step_def split: option.splits intro: reach_step)

lemma reachable_foldl: "reachable I s \<Longrightarrow> reachable I (foldl (do_step I) s acts)"
  by (induction acts arbitrary: s) (auto intro: reachable_do_step)

lemma reachable_run: "reachable I (run I acts)"
  unfolding run_def by (rule reachable_foldl) (rule reach_init)

section \<open>The claims\<close>

lemma reachable_steps: "steps I s s' \<Longrightarrow> reachable I s \<Longrightarrow> reachable I s'"
  by (induction rule: steps.induct) (auto intro: reach_step)

lemma inv_parts:
  assumes "inv s"
  shows "inv_threads s" "inv_registry s" "inv_exec s" "inv_chans s" "inv_channel s"
    "inv_unblocked s" "inv_results s" "inv_history s" "inv_injective s"
  using assms by (simp_all add: inv_def)

lemma registered_in_flight:
  assumes "inv s" "workspaces s k = Some c"
  shows "c < ncalls s" "waitGroup (calls s c) = Suc 0"
  using assms by (auto simp: inv_def inv_registry_def)

text \<open>A record that is done is never written again, and nothing more is sent to its channels.\<close>

lemma done_call_frozen_step:
  assumes i: "inv s" and st: "step I s a = Some s'"
    and c: "c < ncalls s" and w: "waitGroup (calls s c) = 0"
  shows "calls s' c = calls s c \<and> ncalls s \<le> ncalls s'
    \<and> (\<forall>ch. ch \<in> set (chans (calls s c)) \<longrightarrow> ch_sent (channels s' ch) = ch_sent (channels s ch))"
  using st inv_parts(3,4,5) [OF i]
proof (cases rule: inv_step_elim)
  case (Do_attach t key fn c1)
  with registered_in_flight [OF i Do_attach(5)] w show ?thesis by auto
next
  case (DoChan_attach t key fn c1)
  with registered_in_flight [OF i DoChan_attach(5)] w inv_chansD(1) [OF inv_parts(4) [OF i] c]
  show ?thesis by auto
next
  case (DoChan_create t key fn)
  with c inv_chansD(1) [OF inv_parts(4) [OF i] c] show ?thesis by auto
next
  case (defer_crash t c1 key nr rc inline)
  with w show ?thesis by auto
next
  case (defer_repanic t c1 key nr rc inline)
  with w show ?thesis by auto
next
  case (defer_goexit t c1 key nr rc inline)
  with w show ?thesis by auto
next
  case (defer_deliver t c1 key nr rc inline)
  with w have ne: "c \<noteq> c1" by auto
  with inv_chansD(3) [OF inv_parts(4) [OF i] c defer_deliver(5)]
  have "ch \<in> set (chans (calls s c)) \<Longrightarrow> ch \<notin> set (chans (calls s c1))" for ch by blast
  with ne show ?thesis by (auto simp: defer_deliver deliver_def)
qed (use c w in auto)

lemma done_call_frozen:
  assumes "steps I s s'" "reachable I s" "c < ncalls s" "waitGroup (calls s c) = 0"
  shows "calls s' c = calls s c \<and> c < ncalls s'
    \<and> (\<forall>ch. ch \<in> set (chans (calls s c)) \<longrightarrow> ch_sent (channels s' ch) = ch_sent (channels s ch))"
  using assms
proof (induction rule: steps.induct)
  case (steps_refl s)
  then show ?case by simp
next
  case (steps_step s s' a s'')
  from steps_step.IH [OF steps_step.prems]
  have ih: "calls s' c = calls s c" "c < ncalls s'"
    "\<And>ch. ch \<in> set (chans (calls s c)) \<Longrightarrow> ch_sent (channels s' ch) = ch_sent (channels s ch)"
    by auto
  from reachable_steps [OF steps_step.hyps(1) steps_step.prems(1)] have "inv s'"
    by (rule reachable_inv)
  from done_call_frozen_step [OF this steps_step.hyps(2) ih(2)] ih(1) steps_step.prems(3)
  have "calls s'' c = calls s' c" "ncalls s' \<le> ncalls s''"
    "\<And>ch. ch \<in> set (chans (calls s' c)) \<Longrightarrow> ch_sent (channels s'' ch) = ch_sent (channels s' ch)"
    by auto
  with ih show ?case by auto
qed

lemma unlocked:
  assumes "inv s" "crashed s = None"
  shows "\<not> mu s"
  using assms by (auto simp: inv_def inv_unblocked_def)

lemma doCall_defer_goexit:
  assumes "\<not> mu s" "waitGroup (calls s c) \<noteq> 0"
  shows "doCall_defer I s t c key False False inline
    = Some ((defer_state s c key False False)\<lparr>threads := (threads s)(t := Goexited)\<rparr>)"
  using assms
  by (simp add: doCall_defer_def defer_state_def defer_err_def after_doCall_def Let_def)

text \<open>
  C4. When the supplier ends by \<open>runtime.Goexit\<close>, the wrapper reaches its deferred function
  with neither flag set. The deferred function then stores \<open>errGoexit\<close>, brings the wait
  group to zero, sends nothing to any channel, crashes nothing and panics nowhere: the
  executing goroutine ends by the forced exit. From then on the record stays as it is and
  its channels stay empty. A duplicate of \<open>Do\<close> that wakes and finds \<open>errGoexit\<close> ends by
  \<open>runtime.Goexit\<close> too, and returns nothing.
\<close>

theorem forced_exit_outcome:
  assumes r: "reachable I s" and c: "crashed s = None" and t: "t < nthreads s"
  shows "(threads s t = doCall_fn c k Goexits inline \<longrightarrow>
            (\<exists>s1. step I s (Sched t) = Some s1
               \<and> threads s1 t = doCall_deferred c k False False inline
               \<and> calls s1 = calls s \<and> channels s1 = channels s \<and> crashed s1 = None))
       \<and> (threads s t = doCall_deferred c k False False inline \<longrightarrow>
            (\<exists>s2. step I s (Sched t) = Some s2
               \<and> err (calls s2 c) = errGoexit \<and> waitGroup (calls s2 c) = 0
               \<and> channels s2 = channels s \<and> crashed s2 = None \<and> \<not> mu s2
               \<and> threads s2 t = Goexited
               \<and> (\<forall>s3. steps I s2 s3 \<longrightarrow>
                     err (calls s3 c) = errGoexit \<and> waitGroup (calls s3 c) = 0
                     \<and> (\<forall>ch \<in> set (chans (calls s2 c)). ch_sent (channels s3 ch) = []))))
       \<and> (threads s t = Do_wait c \<and> waitGroup (calls s c) = 0 \<and> err (calls s c) = errGoexit \<longrightarrow>
            (\<exists>s'. step I s (Sched t) = Some s' \<and> threads s' t = Goexited))"
proof (intro conjI impI)
  assume "threads s t = doCall_fn c k Goexits inline"
  with c t show "\<exists>s1. step I s (Sched t) = Some s1
               \<and> threads s1 t = doCall_deferred c k False False inline
               \<and> calls s1 = calls s \<and> channels s1 = channels s \<and> crashed s1 = None"
    by (simp add: doCall_run_def)
next
  assume p: "threads s t = doCall_deferred c k False False inline"
  note i = reachable_inv [OF r]
  from p have "exec_of (threads s t) = Some (c, k)" by simp
  note ef = executor_facts [OF inv_parts(3) [OF i] this]
  define s2 where "s2 = (defer_state s c k False False)\<lparr>threads := (threads s)(t := Goexited)\<rparr>"
  from ef(2) have st: "step I s (Sched t) = Some s2"
    using c t p unlocked [OF i c] by (simp add: doCall_defer_goexit s2_def)
  from r st have r2: "reachable I s2" by (rule reach_step)
  have e2: "err (calls s2 c) = errGoexit" and w2: "waitGroup (calls s2 c) = 0"
    and ch2: "chans (calls s2 c) = chans (calls s c)" and h2: "channels s2 = channels s"
    and c2: "c < ncalls s2"
    using ef(1,2) by (simp_all add: s2_def defer_err_def)
  from ef(2) have nz: "waitGroup (calls s c) \<noteq> 0" by simp
  have empty: "ch_sent (channels s2 ch) = []" if "ch \<in> set (chans (calls s2 c))" for ch
    using that inv_chansD(4) [OF inv_parts(4) [OF i] ef(1) nz, of ch] by (simp add: ch2 h2)
  have later: "err (calls s3 c) = errGoexit \<and> waitGroup (calls s3 c) = 0
      \<and> (\<forall>ch \<in> set (chans (calls s2 c)). ch_sent (channels s3 ch) = [])" if "steps I s2 s3" for s3
    using done_call_frozen [OF that r2 c2 w2] e2 w2 empty by simp
  from st e2 w2 h2 c unlocked [OF i c] later
  show "\<exists>s2. step I s (Sched t) = Some s2
               \<and> err (calls s2 c) = errGoexit \<and> waitGroup (calls s2 c) = 0
               \<and> channels s2 = channels s \<and> crashed s2 = None \<and> \<not> mu s2
               \<and> threads s2 t = Goexited
               \<and> (\<forall>s3. steps I s2 s3 \<longrightarrow>
                     err (calls s3 c) = errGoexit \<and> waitGroup (calls s3 c) = 0
                     \<and> (\<forall>ch \<in> set (chans (calls s2 c)). ch_sent (channels s3 ch) = []))"
    by (intro exI [of _ s2]) (simp add: s2_def)
next
  assume "threads s t = Do_wait c \<and> waitGroup (calls s c) = 0 \<and> err (calls s c) = errGoexit"
  with c t show "\<exists>s'. step I s (Sched t) = Some s' \<and> threads s' t = Goexited"
    by (simp add: Do_wake_def)
qed

lemma doCall_defer_enabled:
  "\<not> mu s \<Longrightarrow> \<exists>s'. doCall_defer I s t c key nr rc inline = Some s'"
  by (auto simp: doCall_defer_def Let_def split: prod.splits bool.splits)

text \<open>
  C10. In every reachable state each channel has capacity one and has had at most one
  value sent to it, and no goroutine is blocked in a send. \<open>DoChan\<close> makes its channel with
  capacity one. Wherever a goroutine stands at the deferred function, the fan-out over the
  channels of its record gets through, whatever has or has not been received, and the
  deferred function can run.
\<close>

theorem fan_out_never_blocks:
  assumes r: "reachable I s"
  shows "(\<forall>ch. ch < nchannels s \<longrightarrow>
            ch_cap (channels s ch) = 1 \<and> length (ch_sent (channels s ch)) \<le> 1)
       \<and> (\<forall>t. threads s t \<noteq> SendBlocked)
       \<and> (\<forall>t k fn s'. threads s t = DoChan_entry k fn \<and> step I s (Sched t) = Some s' \<longrightarrow>
            threads s' t = ReturnedChan (nchannels s) \<and> nchannels s' = nchannels s + 1
            \<and> channels s' (nchannels s) = make_chan 1)
       \<and> (\<forall>t c k nr rc inline. threads s t = doCall_deferred c k nr rc inline \<longrightarrow>
            (\<forall>e. fanout (channels s) (chans (calls s c)) e
                   = (deliver (channels s) (chans (calls s c)) e, True))
            \<and> (t < nthreads s \<and> crashed s = None \<longrightarrow> (\<exists>s'. step I s (Sched t) = Some s')))"
proof -
  note i = reachable_inv [OF r]
  have 1: "\<forall>ch. ch < nchannels s \<longrightarrow>
            ch_cap (channels s ch) = 1 \<and> length (ch_sent (channels s ch)) \<le> 1"
    using inv_parts(5) [OF i] by (simp add: inv_channel_def)
  have 2: "\<forall>t. threads s t \<noteq> SendBlocked"
    using inv_parts(6) [OF i] by (simp add: inv_unblocked_def)
  have 3: "threads s' t = ReturnedChan (nchannels s) \<and> nchannels s' = nchannels s + 1
            \<and> channels s' (nchannels s) = make_chan 1"
    if "threads s t = DoChan_entry k fn \<and> step I s (Sched t) = Some s'" for t k fn s'
    using that by (cases "workspaces s k") (auto simp: DoChan_body_def Let_def split: if_splits)
  have 4: "(\<forall>e. fanout (channels s) (chans (calls s c)) e
                   = (deliver (channels s) (chans (calls s c)) e, True))
            \<and> (t < nthreads s \<and> crashed s = None \<longrightarrow> (\<exists>s'. step I s (Sched t) = Some s'))"
    if p: "threads s t = doCall_deferred c k nr rc inline" for t c k nr rc inline
  proof -
    from p have "exec_of (threads s t) = Some (c, k)" by simp
    note ef = executor_facts [OF inv_parts(3) [OF i] this]
    have "fanout (channels s) (chans (calls s c)) e
                   = (deliver (channels s) (chans (calls s c)) e, True)" for e
      by (rule fanout_in_flight [OF inv_parts(4,5) [OF i] ef(1,2)])
    moreover have "\<exists>s'. step I s (Sched t) = Some s'" if "t < nthreads s" "crashed s = None"
      using that p doCall_defer_enabled [OF unlocked [OF i that(2)]] by simp
    ultimately show ?thesis by blast
  qed
  from 1 2 3 4 show ?thesis by blast
qed

lemma attached_iff_dups:
  assumes "inv s" "c < ncalls s"
  shows "(dups (calls s c) > 0) = (EvAttach c \<in> set (history s))"
  using inv_historyD(1) [OF inv_parts(8) [OF assms(1)] assms(2)]
    count_list_0_iff [of "history s" "EvAttach c"]
  by auto

lemma envelope_of_call:
  assumes i: "inv s" and c: "c < ncalls s" and ch: "ch \<in> set (chans (calls s c))"
    and e: "e \<in> set (ch_sent (channels s ch))"
  shows "waitGroup (calls s c) = 0"
    and "e = \<lparr>rc_value = val (calls s c), Err = err (calls s c), Shared = (dups (calls s c) > 0)\<rparr>"
proof -
  show w: "waitGroup (calls s c) = 0"
  proof (rule ccontr)
    assume "waitGroup (calls s c) \<noteq> 0"
    from inv_chansD(4) [OF inv_parts(4) [OF i] c this ch] e show False by simp
  qed
  from inv_resultsD(4) [OF inv_parts(7) [OF i] c w ch e]
  show "e = \<lparr>rc_value = val (calls s c), Err = err (calls s c), Shared = (dups (calls s c) > 0)\<rparr>" .
qed

text \<open>
  C6. The flag of every result, returned by \<open>Do\<close> or sent in an envelope, is \<open>dups > 0\<close> of
  its record, and that holds exactly when another caller attached to the record. The
  caller that started the call returns the flag \<open>dups > 0\<close> at line 46; a duplicate that
  returns at all returns the flag true. Once the record is done, \<open>dups\<close> and the
  attachments in the history no longer change: every attachment came before completion.
\<close>

theorem shared_flag_iff_another_joined:
  assumes r: "reachable I s"
  shows "(\<forall>t c v e sh. threads s t = Returned c v e sh \<longrightarrow>
            sh = (dups (calls s c) > 0) \<and> sh = (EvAttach c \<in> set (history s)))
       \<and> (\<forall>c ch e. c < ncalls s \<and> ch \<in> set (chans (calls s c)) \<and> e \<in> set (ch_sent (channels s ch)) \<longrightarrow>
            Shared e = (dups (calls s c) > 0) \<and> Shared e = (EvAttach c \<in> set (history s)))
       \<and> (\<forall>t c. t < nthreads s \<and> crashed s = None \<and> threads s t = Do_return c \<longrightarrow>
            step I s (Sched t) = Some (s\<lparr>threads := (threads s)(t :=
              Returned c (val (calls s c)) (err (calls s c)) (dups (calls s c) > 0))\<rparr>))
       \<and> (\<forall>t c s' v e sh. threads s t = Do_wait c \<and> step I s (Sched t) = Some s'
              \<and> threads s' t = Returned c v e sh \<longrightarrow> sh)
       \<and> (\<forall>c s'. c < ncalls s \<and> waitGroup (calls s c) = 0 \<and> steps I s s' \<longrightarrow>
            dups (calls s' c) = dups (calls s c)
            \<and> count_list (history s') (EvAttach c) = count_list (history s) (EvAttach c))"
proof -
  note i = reachable_inv [OF r]
  have 1: "sh = (dups (calls s c) > 0) \<and> sh = (EvAttach c \<in> set (history s))"
    if "threads s t = Returned c v e sh" for t c v e sh
    using inv_resultsD(1) [OF inv_parts(7) [OF i] that] attached_iff_dups [OF i, of c] by simp
  have 2: "Shared e = (dups (calls s c) > 0) \<and> Shared e = (EvAttach c \<in> set (history s))"
    if "c < ncalls s \<and> ch \<in> set (chans (calls s c)) \<and> e \<in> set (ch_sent (channels s ch))" for c ch e
    using envelope_of_call(2) [OF i, of c ch e] that attached_iff_dups [OF i, of c] by simp
  have 3: "step I s (Sched t) = Some (s\<lparr>threads := (threads s)(t :=
              Returned c (val (calls s c)) (err (calls s c)) (dups (calls s c) > 0))\<rparr>)"
    if "t < nthreads s \<and> crashed s = None \<and> threads s t = Do_return c" for t c
    using that by (simp add: Do_ret_def)
  have 4: "sh" if "threads s t = Do_wait c \<and> step I s (Sched t) = Some s'
              \<and> threads s' t = Returned c v e sh" for t c s' v e sh
    using that by (auto simp: Do_wake_def Let_def split: if_splits)
  have 5: "dups (calls s' c) = dups (calls s c)
            \<and> count_list (history s') (EvAttach c) = count_list (history s) (EvAttach c)"
    if a: "c < ncalls s \<and> waitGroup (calls s c) = 0 \<and> steps I s s'" for c s'
  proof -
    from a have st: "steps I s s'" and c: "c < ncalls s" and w: "waitGroup (calls s c) = 0" by simp_all
    from done_call_frozen [OF st r c w] have f: "calls s' c = calls s c" "c < ncalls s'" by simp_all
    from reachable_inv [OF reachable_steps [OF st r]] have i': "inv s'" .
    from inv_historyD(1) [OF inv_parts(8) [OF i] c] inv_historyD(1) [OF inv_parts(8) [OF i'] f(2)] f(1)
    show ?thesis by simp
  qed
  from 1 2 3 4 5 show ?thesis by blast
qed

text \<open>
  C7, amended. For an execution with at least two joiners, no result carries the flag
  false: the count is zero, the caller that started the call included. With a single
  joiner every result carries the flag false.
\<close>

theorem no_unshared_result_among_several_joiners:
  assumes r: "reachable I s" and c: "c < ncalls s"
  shows "(2 \<le> joiners s c \<longrightarrow> unshared_results s c = 0)
       \<and> (joiners s c = 1 \<longrightarrow>
            (\<forall>t v e sh. threads s t = Returned c v e sh \<longrightarrow> \<not> sh)
            \<and> (\<forall>ch e. ch \<in> set (chans (calls s c)) \<and> e \<in> set (ch_sent (channels s ch)) \<longrightarrow> \<not> Shared e))"
proof -
  note i = reachable_inv [OF r]
  have A: "unshared_results s c = 0" if "2 \<le> joiners s c"
  proof -
    from that have d: "dups (calls s c) > 0"
      using inv_historyD(1) [OF inv_parts(8) [OF i] c] by (simp add: joiners_def)
    have "\<not> is_unshared_return c (threads s t)" for t
      using inv_resultsD(1) [OF inv_parts(7) [OF i], of t c] d
      by (cases "threads s t") auto
    then have a: "filter (is_unshared_return c) (map (threads s) [0..<nthreads s]) = []"
      by (simp add: filter_empty_conv)
    have "Shared e" if "ch \<in> set (chans (calls s c))" "e \<in> set (ch_sent (channels s ch))" for ch e
      using envelope_of_call(2) [OF i c that] d by simp
    then have b: "filter (\<lambda>r. \<not> Shared r)
        (concat (map (\<lambda>ch. ch_sent (channels s ch)) (chans (calls s c)))) = []"
      by (auto simp: filter_empty_conv)
    from a b show ?thesis by (simp add: unshared_results_def)
  qed
  have B: "(\<forall>t v e sh. threads s t = Returned c v e sh \<longrightarrow> \<not> sh)
            \<and> (\<forall>ch e. ch \<in> set (chans (calls s c)) \<and> e \<in> set (ch_sent (channels s ch)) \<longrightarrow> \<not> Shared e)"
    if "joiners s c = 1"
  proof -
    from that have d: "dups (calls s c) = 0"
      using inv_historyD(1) [OF inv_parts(8) [OF i] c] by (simp add: joiners_def)
    have "\<not> sh" if "threads s t = Returned c v e sh" for t v e sh
      using inv_resultsD(1) [OF inv_parts(7) [OF i] that] d by simp
    moreover have "\<not> Shared e" if "ch \<in> set (chans (calls s c)) \<and> e \<in> set (ch_sent (channels s ch))" for ch e
      using envelope_of_call(2) [OF i c, of ch e] that d by simp
    ultimately show ?thesis by blast
  qed
  from A B show ?thesis by blast
qed

lemma doCall_defer_deliver:
  assumes "\<not> mu s" "waitGroup (calls s c) \<noteq> 0"
    and "\<not> is_panicError (type_B I) (defer_err s c nr rc)" "defer_err s c nr rc \<noteq> errGoexit"
    and "fanout (channels s) (chans (calls s c)) (defer_envelope s c nr rc) = (chs, True)"
  shows "doCall_defer I s t c key nr rc inline
    = Some ((defer_state s c key nr rc)\<lparr>channels := chs,
          threads := (threads s)(t := after_doCall c nr rc inline)\<rparr>)"
  using assms
  by (simp add: doCall_defer_def defer_state_def defer_err_def defer_envelope_def Let_def)


lemma defer_err_simps [simp]:
  "defer_err s c False False = errGoexit"
  "defer_err s c True rc = err (calls s c)"
  "defer_err s c nr True = err (calls s c)"
  by (simp_all add: defer_err_def)


lemma unregistered_step:
  assumes i: "inv s" and st: "step I s a = Some s'"
    and c: "c < ncalls s" and u: "\<forall>k. workspaces s k \<noteq> Some c"
  shows "(\<forall>k. workspaces s' k \<noteq> Some c) \<and> dups (calls s' c) = dups (calls s c)
       \<and> chans (calls s' c) = chans (calls s c) \<and> c < ncalls s'"
proof -
  from st have w: "workspaces s' k = Some c \<Longrightarrow> workspaces s k = Some c \<or> c = ncalls s" for k
    by (cases rule: step_elim) (auto split: if_splits)
  from st have n: "ncalls s \<le> ncalls s'"
    by (cases rule: step_elim) auto
  from st have d: "dups (calls s' c) = dups (calls s c) \<and> chans (calls s' c) = chans (calls s c)"
  proof (cases rule: step_elim)
    case (Do_attach t key fn c1)
    with u have "c1 \<noteq> c" by auto
    with Do_attach show ?thesis by simp
  next
    case (DoChan_attach t key fn c1)
    with u have "c1 \<noteq> c" by auto
    with DoChan_attach show ?thesis by simp
  qed (use c in auto)
  from w n d c u show ?thesis by auto
qed

lemma unregistered_steps:
  assumes "steps I s s'" "reachable I s" "c < ncalls s" "\<forall>k. workspaces s k \<noteq> Some c"
  shows "(\<forall>k. workspaces s' k \<noteq> Some c) \<and> dups (calls s' c) = dups (calls s c)
       \<and> chans (calls s' c) = chans (calls s c) \<and> c < ncalls s'"
  using assms
proof (induction rule: steps.induct)
  case (steps_refl s)
  then show ?case by simp
next
  case (steps_step s s' a s'')
  from steps_step.IH [OF steps_step.prems]
  have ih: "\<forall>k. workspaces s' k \<noteq> Some c" "dups (calls s' c) = dups (calls s c)"
    "chans (calls s' c) = chans (calls s c)" "c < ncalls s'" by simp_all
  from reachable_steps [OF steps_step.hyps(1) steps_step.prems(1)] have "inv s'"
    by (rule reachable_inv)
  from unregistered_step [OF this steps_step.hyps(2) ih(4) ih(1)] ih(2,3)
  show ?case by simp
qed

lemma Do_lock_attach:
  assumes "\<not> mu s" "workspaces s k = Some c"
  shows "Do_lock I s t k fn
    = Some (s\<lparr>calls := (calls s)(c := (calls s c)\<lparr>dups := dups (calls s c) + 1\<rparr>),
              threads := (threads s)(t := Do_wait c),
              history := EvAttach c # history s\<rparr>)"
  using assms by (simp add: Do_lock_def)

lemma Do_lock_create:
  assumes "\<not> mu s" "workspaces s k = None"
  shows "Do_lock I s t k fn
    = Some (s\<lparr>calls := (calls s)(ncalls s := (new_call I)\<lparr>waitGroup := 1\<rparr>),
              ncalls := ncalls s + 1,
              workspaces := (workspaces s)(k \<mapsto> ncalls s),
              threads := (threads s)(t := doCall_fn (ncalls s) k fn True),
              history := EvCreate (ncalls s) # history s\<rparr>)"
  using assms by (simp add: Do_lock_def Let_def)

lemma DoChan_body_attach:
  assumes "\<not> mu s" "workspaces s k = Some c"
  shows "DoChan_body I s t k fn
    = Some (s\<lparr>channels := (channels s)(nchannels s := make_chan 1),
              nchannels := nchannels s + 1,
              calls := (calls s)(c := (calls s c)\<lparr>dups := dups (calls s c) + 1,
                                                    chans := chans (calls s c) @ [nchannels s]\<rparr>),
              threads := (threads s)(t := ReturnedChan (nchannels s)),
              history := EvAttach c # history s\<rparr>)"
  using assms by (simp add: DoChan_body_def Let_def)

lemma DoChan_body_create:
  assumes "\<not> mu s" "workspaces s k = None"
  shows "DoChan_body I s t k fn
    = Some (s\<lparr>channels := (channels s)(nchannels s := make_chan 1),
              nchannels := nchannels s + 1,
              calls := (calls s)(ncalls s := (new_call I)\<lparr>chans := [nchannels s], waitGroup := 1\<rparr>),
              ncalls := ncalls s + 1,
              workspaces := (workspaces s)(k \<mapsto> ncalls s),
              threads := (threads s)(t := ReturnedChan (nchannels s),
                                     nthreads s := doCall_fn (ncalls s) k fn False),
              nthreads := nthreads s + 1,
              history := EvCreate (ncalls s) # history s\<rparr>)"
  using assms by (simp add: DoChan_body_def Let_def)


text \<open>An entry of the registry goes away only in \<open>Forget\<close> of its key, or in the deferred function
  of the goroutine that executes its record for that key.\<close>

lemma entry_kept_thread_step:
  assumes "thread_step I s t p = Some s'" "workspaces s k = Some c"
  shows "workspaces s' k = Some c \<or> p = Forget_entry k
       \<or> (\<exists>nr rc inl. p = doCall_deferred c k nr rc inl \<and> waitGroup (calls s c) \<noteq> 0)"
proof (cases p)
  case (Do_entry key fn)
  with assms show ?thesis
    by (cases "workspaces s key") (auto simp: Do_lock_def Let_def split: if_splits)
next
  case (Do_wait c0)
  with assms show ?thesis by (auto simp: Do_wake_def Let_def split: if_splits)
next
  case (Do_return c0)
  with assms show ?thesis by (auto simp: Do_ret_def)
next
  case (DoChan_entry key fn)
  with assms show ?thesis
    by (cases "workspaces s key") (auto simp: DoChan_body_def Let_def split: if_splits)
next
  case (Forget_entry key)
  with assms show ?thesis by (auto simp: Forget_body_def split: if_splits)
next
  case (doCall_fn c0 key fn inline)
  with assms show ?thesis by (cases fn) (auto simp: doCall_run_def Let_def)
next
  case (doCall_deferred c0 key nr rc inline)
  with assms show ?thesis
    by (auto simp: doCall_defer_def Let_def split: if_splits prod.splits bool.splits)
qed (use assms in auto)

lemma entry_kept_step:
  assumes "step I s a = Some s'" "workspaces s k = Some c"
  shows "workspaces s' k = Some c \<or> forgets s a k
       \<or> (\<exists>t nr rc inl. a = Sched t \<and> threads s t = doCall_deferred c k nr rc inl
             \<and> waitGroup (calls s c) \<noteq> 0)"
proof (cases a)
  case (Sched t)
  with assms have t: "t < nthreads s" and ts: "thread_step I s t (threads s t) = Some s'"
    by (auto split: if_splits)
  from entry_kept_thread_step [OF ts assms(2)] Sched t assms(2) show ?thesis by auto
qed (use assms in \<open>auto simp: spawn_def recv_def split: if_splits\<close>)

text \<open>What the deferred function touches.\<close>

lemma doCall_defer_frame:
  assumes "doCall_defer I s t c key nr rc inline = Some s'" "waitGroup (calls s c) \<noteq> 0"
  shows "workspaces s' = (if workspaces s key = Some c then (workspaces s)(key := None) else workspaces s)"
    and "\<And>c'. c' \<noteq> c \<Longrightarrow> calls s' c' = calls s c'"
    and "waitGroup (calls s' c) = waitGroup (calls s c) - 1"
    and "val (calls s' c) = val (calls s c)" "dups (calls s' c) = dups (calls s c)"
    and "chans (calls s' c) = chans (calls s c)"
    and "\<And>t'. t' \<noteq> t \<Longrightarrow> threads s' t' = threads s t'"
    and "exec_of (threads s' t) = None"
    and "ncalls s' = ncalls s"
    and "err (calls s' c) = defer_err s c nr rc"
  using assms
  by (auto simp: doCall_defer_def Let_def after_doCall_def defer_err_def
      split: if_splits prod.splits bool.splits)

lemma entry_kept_or_done:
  assumes i: "inv s" and st: "step I s a = Some s'" and w: "workspaces s k = Some c"
  shows "workspaces s' k = Some c \<or> forgets s a k \<or> waitGroup (calls s' c) = 0"
proof -
  from entry_kept_step [OF st w]
  consider "workspaces s' k = Some c" | "forgets s a k"
    | t nr rc inl where "a = Sched t" "threads s t = doCall_deferred c k nr rc inl"
    by blast
  then show ?thesis
  proof cases
    case 3
    with st have d: "doCall_defer I s t c k nr rc inl = Some s'" by (auto split: if_splits)
    from registered_in_flight [OF i w] have "waitGroup (calls s c) = Suc 0" by simp
    with doCall_defer_frame(3) [OF d] show ?thesis by simp
  qed auto
qed














text \<open>The deferred function of a record under execution: what it leaves behind.\<close>

lemma defer_resolves:
  assumes i: "inv s" and c: "crashed s = None" and t: "t < nthreads s"
    and p: "threads s t = doCall_deferred c0 key nr rc inl"
  shows "\<exists>s'. step I s (Sched t) = Some s'
       \<and> workspaces s' = (if workspaces s key = Some c0 then (workspaces s)(key := None)
                          else workspaces s)
       \<and> waitGroup (calls s' c0) = 0 \<and> val (calls s' c0) = val (calls s c0)
       \<and> err (calls s' c0) = defer_err s c0 nr rc
       \<and> (\<forall>c. c \<noteq> c0 \<longrightarrow> calls s' c = calls s c)
       \<and> (\<not> is_panicError (type_B I) (defer_err s c0 nr rc) \<and> defer_err s c0 nr rc \<noteq> errGoexit \<longrightarrow>
            (\<forall>ch \<in> set (chans (calls s c0)).
                ch_sent (channels s' ch) = [defer_envelope s c0 nr rc]))"
proof -
  note nm = unlocked [OF i c]
  from p have x: "exec_of (threads s t) = Some (c0, key)" by simp
  note ex = executor_facts(1,2) [OF inv_parts(3) [OF i] x]
  from ex(2) have nz: "waitGroup (calls s c0) \<noteq> 0" by simp
  from doCall_defer_enabled [OF nm] obtain s'
    where d: "doCall_defer I s t c0 key nr rc inl = Some s'" by blast
  with c t p have st: "step I s (Sched t) = Some s'" by simp
  note fr = doCall_defer_frame [OF d nz]
  have ch: "\<forall>ch \<in> set (chans (calls s c0)). ch_sent (channels s' ch) = [defer_envelope s c0 nr rc]"
    if n: "\<not> is_panicError (type_B I) (defer_err s c0 nr rc)" "defer_err s c0 nr rc \<noteq> errGoexit"
  proof -
    have f: "fanout (channels s) (chans (calls s c0)) (defer_envelope s c0 nr rc)
        = (deliver (channels s) (chans (calls s c0)) (defer_envelope s c0 nr rc), True)"
      by (rule fanout_in_flight [OF inv_parts(4,5) [OF i] ex])
    from doCall_defer_deliver [OF nm nz n f, of t key inl] d
    have "channels s' = deliver (channels s) (chans (calls s c0)) (defer_envelope s c0 nr rc)"
      by auto
    moreover have "ch_sent (channels s ch) = []" if "ch \<in> set (chans (calls s c0))" for ch
      by (rule inv_chansD(4) [OF inv_parts(4) [OF i] ex(1) nz that])
    ultimately show ?thesis by (simp add: deliver_def send_def)
  qed
  from st fr(1,3,4,10) fr(2) ex(2) ch show ?thesis by (intro exI [of _ s']) auto
qed

text \<open>An entry stays until \<open>Forget\<close> of its key removes it or its own record is done, and as
  long as it is there a join attaches to its record.\<close>

lemma registered_stays:
  assumes r: "reachable I s"
  shows "(\<forall>a s'. step I s a = Some s' \<and> workspaces s k = Some c \<longrightarrow>
            workspaces s' k = Some c \<or> forgets s a k \<or> waitGroup (calls s' c) = 0)
       \<and> (\<forall>t fn. t < nthreads s \<and> crashed s = None \<and> workspaces s k = Some c
              \<and> threads s t = Do_entry k fn \<longrightarrow>
            step I s (Sched t)
            = Some (s\<lparr>calls := (calls s)(c := (calls s c)\<lparr>dups := dups (calls s c) + 1\<rparr>),
                      threads := (threads s)(t := Do_wait c),
                      history := EvAttach c # history s\<rparr>))
       \<and> (\<forall>t fn. t < nthreads s \<and> crashed s = None \<and> workspaces s k = Some c
              \<and> threads s t = DoChan_entry k fn \<longrightarrow>
            step I s (Sched t)
            = Some (s\<lparr>channels := (channels s)(nchannels s := make_chan 1),
                      nchannels := nchannels s + 1,
                      calls := (calls s)(c := (calls s c)\<lparr>dups := dups (calls s c) + 1,
                                   chans := chans (calls s c) @ [nchannels s]\<rparr>),
                      threads := (threads s)(t := ReturnedChan (nchannels s)),
                      history := EvAttach c # history s\<rparr>))"
proof -
  note i = reachable_inv [OF r]
  have 1: "workspaces s' k = Some c \<or> forgets s a k \<or> waitGroup (calls s' c) = 0"
    if "step I s a = Some s' \<and> workspaces s k = Some c" for a s'
    using entry_kept_or_done [OF i, of I a s' k c] that by simp
  have 2: "step I s (Sched t)
            = Some (s\<lparr>calls := (calls s)(c := (calls s c)\<lparr>dups := dups (calls s c) + 1\<rparr>),
                      threads := (threads s)(t := Do_wait c),
                      history := EvAttach c # history s\<rparr>)"
    if a: "t < nthreads s \<and> crashed s = None \<and> workspaces s k = Some c
              \<and> threads s t = Do_entry k fn" for t fn
  proof -
    from a have w: "workspaces s k = Some c" and c0: "crashed s = None" by simp_all
    from a show ?thesis by (simp add: Do_lock_attach [OF unlocked [OF i c0] w])
  qed
  have 3: "step I s (Sched t)
            = Some (s\<lparr>channels := (channels s)(nchannels s := make_chan 1),
                      nchannels := nchannels s + 1,
                      calls := (calls s)(c := (calls s c)\<lparr>dups := dups (calls s c) + 1,
                                   chans := chans (calls s c) @ [nchannels s]\<rparr>),
                      threads := (threads s)(t := ReturnedChan (nchannels s)),
                      history := EvAttach c # history s\<rparr>)"
    if a: "t < nthreads s \<and> crashed s = None \<and> workspaces s k = Some c
              \<and> threads s t = DoChan_entry k fn" for t fn
  proof -
    from a have w: "workspaces s k = Some c" and c0: "crashed s = None" by simp_all
    from a show ?thesis by (simp add: DoChan_body_attach [OF unlocked [OF i c0] w])
  qed
  from 1 2 3 show ?thesis by blast
qed


text \<open>The supplier runs on its own record.\<close>

lemma run_resolves:
  assumes c: "crashed s = None" and t: "t < nthreads s"
    and p: "threads s t = doCall_fn c0 key fn inl"
  shows "\<exists>s'. step I s (Sched t) = Some s' \<and> workspaces s' = workspaces s
       \<and> (\<forall>c. c \<noteq> c0 \<longrightarrow> calls s' c = calls s c)
       \<and> history s' = EvInvoke c0 # history s"
  using assms by (cases fn) (simp_all add: doCall_run_def)

text \<open>
  In every reachable state: an entry stays until \<open>Forget\<close> of its key removes it or its own
  record is done; as long as it is there a join attaches to its record; the supplier of a
  record writes that record only; and the deferred function of a record makes that record
  done, removes its entry if the registry still holds it and no other entry, writes no
  other record, and on a normal return delivers to the channels of the record.
\<close>

lemma registry_and_executors:
  assumes r: "reachable I s"
  shows "(\<forall>c a s'. step I s a = Some s' \<and> workspaces s k = Some c \<longrightarrow>
            workspaces s' k = Some c \<or> forgets s a k \<or> waitGroup (calls s' c) = 0)
       \<and> (\<forall>c t fn. t < nthreads s \<and> crashed s = None \<and> workspaces s k = Some c
              \<and> threads s t = Do_entry k fn \<longrightarrow>
            step I s (Sched t)
            = Some (s\<lparr>calls := (calls s)(c := (calls s c)\<lparr>dups := dups (calls s c) + 1\<rparr>),
                      threads := (threads s)(t := Do_wait c),
                      history := EvAttach c # history s\<rparr>))
       \<and> (\<forall>c t fn. t < nthreads s \<and> crashed s = None \<and> workspaces s k = Some c
              \<and> threads s t = DoChan_entry k fn \<longrightarrow>
            step I s (Sched t)
            = Some (s\<lparr>channels := (channels s)(nchannels s := make_chan 1),
                      nchannels := nchannels s + 1,
                      calls := (calls s)(c := (calls s c)\<lparr>dups := dups (calls s c) + 1,
                                   chans := chans (calls s c) @ [nchannels s]\<rparr>),
                      threads := (threads s)(t := ReturnedChan (nchannels s)),
                      history := EvAttach c # history s\<rparr>))
       \<and> (\<forall>t c key fn inl. t < nthreads s \<and> crashed s = None
              \<and> threads s t = doCall_fn c key fn inl \<longrightarrow>
            (\<exists>s'. step I s (Sched t) = Some s' \<and> workspaces s' = workspaces s
               \<and> (\<forall>c'. c' \<noteq> c \<longrightarrow> calls s' c' = calls s c')
               \<and> history s' = EvInvoke c # history s))
       \<and> (\<forall>t c key nr rc inl. t < nthreads s \<and> crashed s = None
              \<and> threads s t = doCall_deferred c key nr rc inl \<longrightarrow>
            (\<exists>s'. step I s (Sched t) = Some s'
               \<and> workspaces s' = (if workspaces s key = Some c then (workspaces s)(key := None)
                                  else workspaces s)
               \<and> waitGroup (calls s' c) = 0 \<and> val (calls s' c) = val (calls s c)
               \<and> err (calls s' c) = defer_err s c nr rc
               \<and> (\<forall>c'. c' \<noteq> c \<longrightarrow> calls s' c' = calls s c')
               \<and> (\<not> is_panicError (type_B I) (defer_err s c nr rc) \<and> defer_err s c nr rc \<noteq> errGoexit \<longrightarrow>
                    (\<forall>ch \<in> set (chans (calls s c)).
                        ch_sent (channels s' ch) = [defer_envelope s c nr rc]))))"
proof -
  note i = reachable_inv [OF r]
  note rs = registered_stays [OF r]
  have 1: "workspaces s' k = Some c \<or> forgets s a k \<or> waitGroup (calls s' c) = 0"
    if "step I s a = Some s' \<and> workspaces s k = Some c" for c a s'
    using rs [of k c, THEN conjunct1, rule_format, OF that] .
  have 2: "step I s (Sched t)
     = Some (s\<lparr>calls := (calls s)(c := (calls s c)\<lparr>dups := dups (calls s c) + 1\<rparr>),
               threads := (threads s)(t := Do_wait c),
               history := EvAttach c # history s\<rparr>)"
    if "t < nthreads s \<and> crashed s = None \<and> workspaces s k = Some c
       \<and> threads s t = Do_entry k fn" for c t fn
    using rs [of k c, THEN conjunct2, THEN conjunct1, rule_format, OF that] .
  have 3: "step I s (Sched t)
     = Some (s\<lparr>channels := (channels s)(nchannels s := make_chan 1),
               nchannels := nchannels s + 1,
               calls := (calls s)(c := (calls s c)\<lparr>dups := dups (calls s c) + 1,
                            chans := chans (calls s c) @ [nchannels s]\<rparr>),
               threads := (threads s)(t := ReturnedChan (nchannels s)),
               history := EvAttach c # history s\<rparr>)"
    if "t < nthreads s \<and> crashed s = None \<and> workspaces s k = Some c
       \<and> threads s t = DoChan_entry k fn" for c t fn
    using rs [of k c, THEN conjunct2, THEN conjunct2, rule_format, OF that] .
  have 4: "\<exists>s'. step I s (Sched t) = Some s' \<and> workspaces s' = workspaces s
        \<and> (\<forall>c'. c' \<noteq> c \<longrightarrow> calls s' c' = calls s c')
        \<and> history s' = EvInvoke c # history s"
    if "t < nthreads s \<and> crashed s = None \<and> threads s t = doCall_fn c key fn inl"
    for t c key fn inl
    using run_resolves [of s t c key fn inl I] that by simp
  have 5: "\<exists>s'. step I s (Sched t) = Some s'
        \<and> workspaces s' = (if workspaces s key = Some c then (workspaces s)(key := None)
                           else workspaces s)
        \<and> waitGroup (calls s' c) = 0 \<and> val (calls s' c) = val (calls s c)
        \<and> err (calls s' c) = defer_err s c nr rc
        \<and> (\<forall>c'. c' \<noteq> c \<longrightarrow> calls s' c' = calls s c')
        \<and> (\<not> is_panicError (type_B I) (defer_err s c nr rc) \<and> defer_err s c nr rc \<noteq> errGoexit \<longrightarrow>
             (\<forall>ch \<in> set (chans (calls s c)).
                 ch_sent (channels s' ch) = [defer_envelope s c nr rc]))"
    if a: "t < nthreads s \<and> crashed s = None \<and> threads s t = doCall_deferred c key nr rc inl"
    for t c key nr rc inl
  proof -
    from a have a1: "crashed s = None" and a2: "t < nthreads s"
      and a3: "threads s t = doCall_deferred c key nr rc inl" by simp_all
    show ?thesis by (rule defer_resolves [OF i a1 a2 a3])
  qed
  show ?thesis by (intro conjI allI impI) (erule 1 2 3 4 5)+
qed

text \<open>
  C9. \<open>Forget(k)\<close> runs whenever the process is alive: it removes the entry of \<open>k\<close> from
  the registry and touches neither a record, nor a channel, nor another goroutine. The
  record that was registered stays in flight; it is never registered again, and no later
  join attaches to it (\<open>dups\<close> and \<open>chans\<close> keep their values). When its goroutine reaches
  the deferred function, the forgotten record is done with its own value and failure, the
  registry is left as it is (the guard of lines 98 to 100), no other record is written,
  and on a normal return the channels it had before \<open>Forget\<close> get its envelope; a duplicate
  of \<open>Do\<close> that waits for it wakes with its value and failure. A \<open>Do\<close> or \<open>DoChan\<close> with key
  \<open>k\<close> that runs next starts a new record, different from the forgotten one and in flight
  beside it, and its supplier is invoked by its own goroutine. In every later state: an
  entry for \<open>k\<close>, such as the one of the new record, goes away only when \<open>Forget(k)\<close>
  removes it or its own record is done, and while it is there a \<open>Do\<close> or \<open>DoChan\<close> with key
  \<open>k\<close> attaches to its record; a supplier that runs writes its own record only; and the
  deferred function of a record makes that record done, removes the entry of its key only
  if the registry holds that very record there, and writes no other record.
\<close>

theorem forget_starts_independent_execution:
  assumes r: "reachable I s" and c: "crashed s = None" and t: "tf < nthreads s"
    and p: "threads s tf = Forget_entry k"
  shows "\<exists>s1. step I s (Sched tf) = Some s1
       \<and> workspaces s1 = (workspaces s)(k := None) \<and> calls s1 = calls s \<and> ncalls s1 = ncalls s
       \<and> channels s1 = channels s \<and> history s1 = history s \<and> crashed s1 = None
       \<and> (\<forall>t. t \<noteq> tf \<longrightarrow> threads s1 t = threads s t)
       \<and> (\<forall>c0. workspaces s k = Some c0 \<longrightarrow>
              waitGroup (calls s1 c0) = 1
              \<and> (\<forall>s2. steps I s1 s2 \<longrightarrow>
                    (\<forall>k'. workspaces s2 k' \<noteq> Some c0) \<and> dups (calls s2 c0) = dups (calls s c0)
                    \<and> chans (calls s2 c0) = chans (calls s c0)
                    \<and> (\<forall>te key nr rc inl. te < nthreads s2 \<and> crashed s2 = None
                          \<and> threads s2 te = doCall_deferred c0 key nr rc inl \<longrightarrow>
                         (\<exists>s3. step I s2 (Sched te) = Some s3 \<and> workspaces s3 = workspaces s2
                            \<and> waitGroup (calls s3 c0) = 0 \<and> val (calls s3 c0) = val (calls s2 c0)
                            \<and> err (calls s3 c0) = defer_err s2 c0 nr rc
                            \<and> (\<forall>c'. c' \<noteq> c0 \<longrightarrow> calls s3 c' = calls s2 c')
                            \<and> (\<not> is_panicError (type_B I) (defer_err s2 c0 nr rc)
                                 \<and> defer_err s2 c0 nr rc \<noteq> errGoexit \<longrightarrow>
                               (\<forall>ch \<in> set (chans (calls s c0)).
                                   ch_sent (channels s3 ch) = [defer_envelope s2 c0 nr rc]))))
                    \<and> (\<forall>tw. tw < nthreads s2 \<and> crashed s2 = None \<and> threads s2 tw = Do_wait c0
                          \<and> waitGroup (calls s2 c0) = 0 \<longrightarrow>
                         step I s2 (Sched tw)
                         = Some (s2\<lparr>threads := (threads s2)(tw :=
                             (if is_panicError (type_B I) (err (calls s2 c0))
                              then Panicked (err (calls s2 c0))
                              else if err (calls s2 c0) = errGoexit then Goexited
                              else Returned c0 (val (calls s2 c0)) (err (calls s2 c0)) True))\<rparr>))))
       \<and> (\<forall>tj fn. tj < nthreads s1 \<and> threads s1 tj = Do_entry k fn \<longrightarrow>
              (\<exists>s2. step I s1 (Sched tj) = Some s2
                 \<and> threads s2 tj = doCall_fn (ncalls s) k fn True
                 \<and> workspaces s2 k = Some (ncalls s) \<and> waitGroup (calls s2 (ncalls s)) = 1
                 \<and> (\<forall>c0. workspaces s k = Some c0 \<longrightarrow> c0 \<noteq> ncalls s \<and> calls s2 c0 = calls s c0)
                 \<and> (\<exists>s3. step I s2 (Sched tj) = Some s3
                       \<and> history s3 = EvInvoke (ncalls s) # EvCreate (ncalls s) # history s)))
       \<and> (\<forall>tj fn. tj < nthreads s1 \<and> threads s1 tj = DoChan_entry k fn \<longrightarrow>
              (\<exists>s2. step I s1 (Sched tj) = Some s2
                 \<and> threads s2 tj = ReturnedChan (nchannels s)
                 \<and> threads s2 (nthreads s) = doCall_fn (ncalls s) k fn False
                 \<and> workspaces s2 k = Some (ncalls s) \<and> waitGroup (calls s2 (ncalls s)) = 1
                 \<and> (\<forall>c0. workspaces s k = Some c0 \<longrightarrow> c0 \<noteq> ncalls s \<and> calls s2 c0 = calls s c0)
                 \<and> (\<exists>s3. step I s2 (Sched (nthreads s)) = Some s3
                       \<and> history s3 = EvInvoke (ncalls s) # EvCreate (ncalls s) # history s)))
       \<and> (\<forall>s3. steps I s1 s3 \<longrightarrow>
               (\<forall>c a s4. step I s3 a = Some s4 \<and> workspaces s3 k = Some c \<longrightarrow>
                    workspaces s4 k = Some c \<or> forgets s3 a k \<or> waitGroup (calls s4 c) = 0)
               \<and> (\<forall>c t fn. t < nthreads s3 \<and> crashed s3 = None \<and> workspaces s3 k = Some c
                      \<and> threads s3 t = Do_entry k fn \<longrightarrow>
                    step I s3 (Sched t)
                    = Some (s3\<lparr>calls := (calls s3)(c := (calls s3 c)\<lparr>dups := dups (calls s3 c) + 1\<rparr>),
                              threads := (threads s3)(t := Do_wait c),
                              history := EvAttach c # history s3\<rparr>))
               \<and> (\<forall>c t fn. t < nthreads s3 \<and> crashed s3 = None \<and> workspaces s3 k = Some c
                      \<and> threads s3 t = DoChan_entry k fn \<longrightarrow>
                    step I s3 (Sched t)
                    = Some (s3\<lparr>channels := (channels s3)(nchannels s3 := make_chan 1),
                              nchannels := nchannels s3 + 1,
                              calls := (calls s3)(c := (calls s3 c)\<lparr>dups := dups (calls s3 c) + 1,
                                           chans := chans (calls s3 c) @ [nchannels s3]\<rparr>),
                              threads := (threads s3)(t := ReturnedChan (nchannels s3)),
                              history := EvAttach c # history s3\<rparr>))
               \<and> (\<forall>t c key fn inl. t < nthreads s3 \<and> crashed s3 = None
                      \<and> threads s3 t = doCall_fn c key fn inl \<longrightarrow>
                    (\<exists>s4. step I s3 (Sched t) = Some s4 \<and> workspaces s4 = workspaces s3
                       \<and> (\<forall>c'. c' \<noteq> c \<longrightarrow> calls s4 c' = calls s3 c')
                       \<and> history s4 = EvInvoke c # history s3))
               \<and> (\<forall>t c key nr rc inl. t < nthreads s3 \<and> crashed s3 = None
                      \<and> threads s3 t = doCall_deferred c key nr rc inl \<longrightarrow>
                    (\<exists>s4. step I s3 (Sched t) = Some s4
                       \<and> workspaces s4 = (if workspaces s3 key = Some c then (workspaces s3)(key := None)
                                          else workspaces s3)
                       \<and> waitGroup (calls s4 c) = 0 \<and> val (calls s4 c) = val (calls s3 c)
                       \<and> err (calls s4 c) = defer_err s3 c nr rc
                       \<and> (\<forall>c'. c' \<noteq> c \<longrightarrow> calls s4 c' = calls s3 c')
                       \<and> (\<not> is_panicError (type_B I) (defer_err s3 c nr rc) \<and> defer_err s3 c nr rc \<noteq> errGoexit \<longrightarrow>
                            (\<forall>ch \<in> set (chans (calls s3 c)).
                                ch_sent (channels s4 ch) = [defer_envelope s3 c nr rc])))))"
proof -
  note i = reachable_inv [OF r]
  note nm = unlocked [OF i c]
  define s1 where "s1 = s\<lparr>workspaces := (workspaces s)(k := None),
                          threads := (threads s)(tf := Finished)\<rparr>"
  have st: "step I s (Sched tf) = Some s1"
    using c t p nm by (simp add: Forget_body_def s1_def)
  from r st have r1: "reachable I s1" by (rule reach_step)
  have f: "workspaces s1 = (workspaces s)(k := None)" "calls s1 = calls s" "ncalls s1 = ncalls s"
    "channels s1 = channels s" "history s1 = history s" "crashed s1 = None" "\<not> mu s1"
    "nchannels s1 = nchannels s" "nthreads s1 = nthreads s"
    "\<And>t. t \<noteq> tf \<Longrightarrow> threads s1 t = threads s t"
    using c nm by (simp_all add: s1_def)
  have old: "c0 < ncalls s" "waitGroup (calls s c0) = Suc 0" if "workspaces s k = Some c0" for c0
    using registered_in_flight [OF i that] by simp_all
  have A2: "(\<forall>k'. workspaces s2 k' \<noteq> Some c0) \<and> dups (calls s2 c0) = dups (calls s c0)
               \<and> chans (calls s2 c0) = chans (calls s c0)
               \<and> (\<forall>te key nr rc inl. te < nthreads s2 \<and> crashed s2 = None
                     \<and> threads s2 te = doCall_deferred c0 key nr rc inl \<longrightarrow>
                    (\<exists>s3. step I s2 (Sched te) = Some s3 \<and> workspaces s3 = workspaces s2
                       \<and> waitGroup (calls s3 c0) = 0 \<and> val (calls s3 c0) = val (calls s2 c0)
                       \<and> err (calls s3 c0) = defer_err s2 c0 nr rc
                       \<and> (\<forall>c'. c' \<noteq> c0 \<longrightarrow> calls s3 c' = calls s2 c')
                       \<and> (\<not> is_panicError (type_B I) (defer_err s2 c0 nr rc)
                            \<and> defer_err s2 c0 nr rc \<noteq> errGoexit \<longrightarrow>
                          (\<forall>ch \<in> set (chans (calls s c0)).
                              ch_sent (channels s3 ch) = [defer_envelope s2 c0 nr rc]))))
               \<and> (\<forall>tw. tw < nthreads s2 \<and> crashed s2 = None \<and> threads s2 tw = Do_wait c0
                     \<and> waitGroup (calls s2 c0) = 0 \<longrightarrow>
                    step I s2 (Sched tw)
                    = Some (s2\<lparr>threads := (threads s2)(tw :=
                        (if is_panicError (type_B I) (err (calls s2 c0))
                         then Panicked (err (calls s2 c0))
                         else if err (calls s2 c0) = errGoexit then Goexited
                         else Returned c0 (val (calls s2 c0)) (err (calls s2 c0)) True))\<rparr>))"
    if w: "workspaces s k = Some c0" and ss: "steps I s1 s2" for c0 s2
  proof -
    have u: "\<forall>k'. workspaces s1 k' \<noteq> Some c0"
    proof (intro allI notI)
      fix k' assume a: "workspaces s1 k' = Some c0"
      then have "k' \<noteq> k" "workspaces s k' = Some c0" by (auto simp: f(1) split: if_splits)
      with w inv_parts(9) [OF i] show False by (auto simp: inv_injective_def)
    qed
    from old(1) [OF w] have c1: "c0 < ncalls s1" by (simp add: f)
    from unregistered_steps [OF ss r1 c1 u]
    have u2: "\<forall>k'. workspaces s2 k' \<noteq> Some c0" and d2: "dups (calls s2 c0) = dups (calls s c0)"
      and h2: "chans (calls s2 c0) = chans (calls s c0)"
      by (simp_all add: f)
    from reachable_steps [OF ss r1] have r2: "reachable I s2" .
    note i2 = reachable_inv [OF r2]
    have X: "\<exists>s3. step I s2 (Sched te) = Some s3 \<and> workspaces s3 = workspaces s2
                   \<and> waitGroup (calls s3 c0) = 0 \<and> val (calls s3 c0) = val (calls s2 c0)
                   \<and> err (calls s3 c0) = defer_err s2 c0 nr rc
                   \<and> (\<forall>c'. c' \<noteq> c0 \<longrightarrow> calls s3 c' = calls s2 c')
                   \<and> (\<not> is_panicError (type_B I) (defer_err s2 c0 nr rc)
                        \<and> defer_err s2 c0 nr rc \<noteq> errGoexit \<longrightarrow>
                      (\<forall>ch \<in> set (chans (calls s c0)).
                          ch_sent (channels s3 ch) = [defer_envelope s2 c0 nr rc]))"
      if a: "te < nthreads s2 \<and> crashed s2 = None
                 \<and> threads s2 te = doCall_deferred c0 key nr rc inl" for te key nr rc inl
    proof -
      from a have a1: "crashed s2 = None" and a2: "te < nthreads s2"
        and a3: "threads s2 te = doCall_deferred c0 key nr rc inl" by simp_all
      from u2 have "workspaces s2 key \<noteq> Some c0" by simp
      with defer_resolves [OF i2 a1 a2 a3, of I] h2 show ?thesis by simp
    qed
    have Y: "step I s2 (Sched tw)
                = Some (s2\<lparr>threads := (threads s2)(tw :=
                    (if is_panicError (type_B I) (err (calls s2 c0))
                     then Panicked (err (calls s2 c0))
                     else if err (calls s2 c0) = errGoexit then Goexited
                     else Returned c0 (val (calls s2 c0)) (err (calls s2 c0)) True))\<rparr>)"
      if a: "tw < nthreads s2 \<and> crashed s2 = None \<and> threads s2 tw = Do_wait c0
                 \<and> waitGroup (calls s2 c0) = 0" for tw
      using a by (simp add: Do_wake_def Let_def)
    from u2 d2 h2 X Y show ?thesis by blast
  qed
  have A: "waitGroup (calls s1 c0) = 1" if w: "workspaces s k = Some c0" for c0
    using old(2) [OF w] by (simp add: f)
  have fresh: "c0 \<noteq> ncalls s" if "workspaces s k = Some c0" for c0
    using old(1) [OF that] by simp
  have w1: "workspaces s1 k = None" by (simp add: f)
  have B: "(\<exists>s2. step I s1 (Sched tj) = Some s2
            \<and> threads s2 tj = doCall_fn (ncalls s) k fn True
            \<and> workspaces s2 k = Some (ncalls s) \<and> waitGroup (calls s2 (ncalls s)) = 1
            \<and> (\<forall>c0. workspaces s k = Some c0 \<longrightarrow> c0 \<noteq> ncalls s \<and> calls s2 c0 = calls s c0)
            \<and> (\<exists>s3. step I s2 (Sched tj) = Some s3
                  \<and> history s3 = EvInvoke (ncalls s) # EvCreate (ncalls s) # history s))"
    if a: "tj < nthreads s1 \<and> threads s1 tj = Do_entry k fn" for tj fn
  proof -
    define s2 where "s2 = s1\<lparr>calls := (calls s1)(ncalls s1 := (new_call I)\<lparr>waitGroup := 1\<rparr>),
              ncalls := ncalls s1 + 1,
              workspaces := (workspaces s1)(k \<mapsto> ncalls s1),
              threads := (threads s1)(tj := doCall_fn (ncalls s1) k fn True),
              history := EvCreate (ncalls s1) # history s1\<rparr>"
    from a have st2: "step I s1 (Sched tj) = Some s2"
      using f(6,7) by (simp add: Do_lock_create [OF f(7) w1] s2_def)
    have g: "threads s2 tj = doCall_fn (ncalls s) k fn True" "workspaces s2 k = Some (ncalls s)"
      "waitGroup (calls s2 (ncalls s)) = 1" "crashed s2 = None" "tj < nthreads s2"
      "history s2 = EvCreate (ncalls s) # history s"
      "\<And>c. c \<noteq> ncalls s \<Longrightarrow> calls s2 c = calls s c"
      using a by (simp_all add: s2_def f)
    have "\<exists>s3. step I s2 (Sched tj) = Some s3
                     \<and> history s3 = EvInvoke (ncalls s) # EvCreate (ncalls s) # history s"
      using g(1,4,5,6) by (cases fn) (simp_all add: doCall_run_def)
    with st2 g(1,2,3) g(7) fresh show ?thesis by (intro exI [of _ s2]) blast
  qed
  have C: "(\<exists>s2. step I s1 (Sched tj) = Some s2
            \<and> threads s2 tj = ReturnedChan (nchannels s)
            \<and> threads s2 (nthreads s) = doCall_fn (ncalls s) k fn False
            \<and> workspaces s2 k = Some (ncalls s) \<and> waitGroup (calls s2 (ncalls s)) = 1
            \<and> (\<forall>c0. workspaces s k = Some c0 \<longrightarrow> c0 \<noteq> ncalls s \<and> calls s2 c0 = calls s c0)
            \<and> (\<exists>s3. step I s2 (Sched (nthreads s)) = Some s3
                  \<and> history s3 = EvInvoke (ncalls s) # EvCreate (ncalls s) # history s))"
    if a: "tj < nthreads s1 \<and> threads s1 tj = DoChan_entry k fn" for tj fn
  proof -
    define s2 where "s2 = s1\<lparr>channels := (channels s1)(nchannels s1 := make_chan 1),
              nchannels := nchannels s1 + 1,
              calls := (calls s1)(ncalls s1 := (new_call I)\<lparr>chans := [nchannels s1], waitGroup := 1\<rparr>),
              ncalls := ncalls s1 + 1,
              workspaces := (workspaces s1)(k \<mapsto> ncalls s1),
              threads := (threads s1)(tj := ReturnedChan (nchannels s1),
                                     nthreads s1 := doCall_fn (ncalls s1) k fn False),
              nthreads := nthreads s1 + 1,
              history := EvCreate (ncalls s1) # history s1\<rparr>"
    from a have st2: "step I s1 (Sched tj) = Some s2"
      using f(6,7) by (simp add: DoChan_body_create [OF f(7) w1] s2_def)
    have g: "threads s2 tj = ReturnedChan (nchannels s)"
      "threads s2 (nthreads s) = doCall_fn (ncalls s) k fn False" "workspaces s2 k = Some (ncalls s)"
      "waitGroup (calls s2 (ncalls s)) = 1" "crashed s2 = None" "nthreads s < nthreads s2"
      "history s2 = EvCreate (ncalls s) # history s"
      "\<And>c. c \<noteq> ncalls s \<Longrightarrow> calls s2 c = calls s c"
      using a by (simp_all add: s2_def f)
    have "\<exists>s3. step I s2 (Sched (nthreads s)) = Some s3
                     \<and> history s3 = EvInvoke (ncalls s) # EvCreate (ncalls s) # history s"
      using g(2,5,6,7) by (cases fn) (simp_all add: doCall_run_def)
    with st2 g(1,2,3,4) g(8) fresh show ?thesis by (intro exI [of _ s2]) blast
  qed
  have L: "(\<forall>c a s4. step I s3 a = Some s4 \<and> workspaces s3 k = Some c \<longrightarrow>
               workspaces s4 k = Some c \<or> forgets s3 a k \<or> waitGroup (calls s4 c) = 0)
          \<and> (\<forall>c t fn. t < nthreads s3 \<and> crashed s3 = None \<and> workspaces s3 k = Some c
                 \<and> threads s3 t = Do_entry k fn \<longrightarrow>
               step I s3 (Sched t)
               = Some (s3\<lparr>calls := (calls s3)(c := (calls s3 c)\<lparr>dups := dups (calls s3 c) + 1\<rparr>),
                         threads := (threads s3)(t := Do_wait c),
                         history := EvAttach c # history s3\<rparr>))
          \<and> (\<forall>c t fn. t < nthreads s3 \<and> crashed s3 = None \<and> workspaces s3 k = Some c
                 \<and> threads s3 t = DoChan_entry k fn \<longrightarrow>
               step I s3 (Sched t)
               = Some (s3\<lparr>channels := (channels s3)(nchannels s3 := make_chan 1),
                         nchannels := nchannels s3 + 1,
                         calls := (calls s3)(c := (calls s3 c)\<lparr>dups := dups (calls s3 c) + 1,
                                      chans := chans (calls s3 c) @ [nchannels s3]\<rparr>),
                         threads := (threads s3)(t := ReturnedChan (nchannels s3)),
                         history := EvAttach c # history s3\<rparr>))
          \<and> (\<forall>t c key fn inl. t < nthreads s3 \<and> crashed s3 = None
                 \<and> threads s3 t = doCall_fn c key fn inl \<longrightarrow>
               (\<exists>s4. step I s3 (Sched t) = Some s4 \<and> workspaces s4 = workspaces s3
                  \<and> (\<forall>c'. c' \<noteq> c \<longrightarrow> calls s4 c' = calls s3 c')
                  \<and> history s4 = EvInvoke c # history s3))
          \<and> (\<forall>t c key nr rc inl. t < nthreads s3 \<and> crashed s3 = None
                 \<and> threads s3 t = doCall_deferred c key nr rc inl \<longrightarrow>
               (\<exists>s4. step I s3 (Sched t) = Some s4
                  \<and> workspaces s4 = (if workspaces s3 key = Some c then (workspaces s3)(key := None)
                                     else workspaces s3)
                  \<and> waitGroup (calls s4 c) = 0 \<and> val (calls s4 c) = val (calls s3 c)
                  \<and> err (calls s4 c) = defer_err s3 c nr rc
                  \<and> (\<forall>c'. c' \<noteq> c \<longrightarrow> calls s4 c' = calls s3 c')
                  \<and> (\<not> is_panicError (type_B I) (defer_err s3 c nr rc) \<and> defer_err s3 c nr rc \<noteq> errGoexit \<longrightarrow>
                       (\<forall>ch \<in> set (chans (calls s3 c)).
                           ch_sent (channels s4 ch) = [defer_envelope s3 c nr rc]))))"
    if "steps I s1 s3" for s3
    by (rule registry_and_executors [OF reachable_steps [OF that r1]])
  from st f(1-6) f(10) A A2 B C L show ?thesis by (intro exI [of _ s1]) blast
qed

lemmas more_scenario_defs = goexit_dup_def goexit_chan_def two_sync_def one_sync_def two_chan_def
  forget_join_def

text \<open>C4 on the scenario \<open>goexit_dup\<close>: the supplier runs, the deferred function runs, the
  duplicate wakes.\<close>

theorem forced_exit_outcome_witness:
  "reachable Group_any (goexit_dup 4) \<and> crashed (goexit_dup 4) = None \<and> 0 < nthreads (goexit_dup 4)
   \<and> threads (goexit_dup 4) 0 = doCall_fn 0 ''k'' Goexits True
   \<and> (\<exists>s1. step Group_any (goexit_dup 4) (Sched 0) = Some s1
          \<and> threads s1 0 = doCall_deferred 0 ''k'' False False True
          \<and> calls s1 = calls (goexit_dup 4) \<and> channels s1 = channels (goexit_dup 4) \<and> crashed s1 = None)
   \<and> reachable Group_any (goexit_dup 5) \<and> crashed (goexit_dup 5) = None \<and> 0 < nthreads (goexit_dup 5)
   \<and> threads (goexit_dup 5) 0 = doCall_deferred 0 ''k'' False False True
   \<and> (\<exists>s2. step Group_any (goexit_dup 5) (Sched 0) = Some s2
          \<and> err (calls s2 0) = errGoexit \<and> waitGroup (calls s2 0) = 0
          \<and> channels s2 = channels (goexit_dup 5) \<and> crashed s2 = None \<and> \<not> mu s2
          \<and> threads s2 0 = Goexited
          \<and> (\<forall>s3. steps Group_any s2 s3 \<longrightarrow>
                err (calls s3 0) = errGoexit \<and> waitGroup (calls s3 0) = 0
                \<and> (\<forall>ch \<in> set (chans (calls s2 0)). ch_sent (channels s3 ch) = [])))
   \<and> reachable Group_any (goexit_dup 6) \<and> crashed (goexit_dup 6) = None \<and> 1 < nthreads (goexit_dup 6)
   \<and> threads (goexit_dup 6) 1 = Do_wait 0 \<and> waitGroup (calls (goexit_dup 6) 0) = 0
   \<and> err (calls (goexit_dup 6) 0) = errGoexit
   \<and> (\<exists>s'. step Group_any (goexit_dup 6) (Sched 1) = Some s' \<and> threads s' 1 = Goexited)"
proof -
  have r: "reachable Group_any (goexit_dup n)" for n
    unfolding goexit_dup_def by (rule reachable_run)
  have a: "crashed (goexit_dup 4) = None" "0 < nthreads (goexit_dup 4)"
    "threads (goexit_dup 4) 0 = doCall_fn 0 ''k'' Goexits True"
    by (simp_all add: goexit_dup_def scenario_defs step_defs)
  have b: "crashed (goexit_dup 5) = None" "0 < nthreads (goexit_dup 5)"
    "threads (goexit_dup 5) 0 = doCall_deferred 0 ''k'' False False True"
    by (simp_all add: goexit_dup_def scenario_defs step_defs)
  have c: "crashed (goexit_dup 6) = None" "1 < nthreads (goexit_dup 6)"
    "threads (goexit_dup 6) 1 = Do_wait 0" "waitGroup (calls (goexit_dup 6) 0) = 0"
    "err (calls (goexit_dup 6) 0) = errGoexit"
    by (simp_all add: goexit_dup_def scenario_defs step_defs)
  from forced_exit_outcome [OF r a(1,2), of 0 "''k''" True] a(3)
  have A: "\<exists>s1. step Group_any (goexit_dup 4) (Sched 0) = Some s1
          \<and> threads s1 0 = doCall_deferred 0 ''k'' False False True
          \<and> calls s1 = calls (goexit_dup 4) \<and> channels s1 = channels (goexit_dup 4) \<and> crashed s1 = None"
    by blast
  from forced_exit_outcome [OF r b(1,2), of 0 "''k''" True] b(3)
  have B: "\<exists>s2. step Group_any (goexit_dup 5) (Sched 0) = Some s2
          \<and> err (calls s2 0) = errGoexit \<and> waitGroup (calls s2 0) = 0
          \<and> channels s2 = channels (goexit_dup 5) \<and> crashed s2 = None \<and> \<not> mu s2
          \<and> threads s2 0 = Goexited
          \<and> (\<forall>s3. steps Group_any s2 s3 \<longrightarrow>
                err (calls s3 0) = errGoexit \<and> waitGroup (calls s3 0) = 0
                \<and> (\<forall>ch \<in> set (chans (calls s2 0)). ch_sent (channels s3 ch) = []))"
    by blast
  from forced_exit_outcome [OF r c(1,2), of 0 "''k''" True] c(3,4,5)
  have C: "\<exists>s'. step Group_any (goexit_dup 6) (Sched 1) = Some s' \<and> threads s' 1 = Goexited"
    by blast
  from r a b c A B C show ?thesis by blast
qed


text \<open>
  C7 as stated fails. Two callers of \<open>Do("k", f)\<close> join one execution; both return
  \<open>(42, nil, true)\<close>, so the number of results with the flag false is zero, not one.
\<close>

theorem all_joiners_shared_counterexample:
  "history (two_sync 8) = [EvInvoke 0, EvAttach 0, EvCreate 0]
   \<and> joiners (two_sync 8) 0 = 2
   \<and> nthreads (two_sync 8) = 2
   \<and> threads (two_sync 8) 0 = Returned 0 42 err_nil True
   \<and> threads (two_sync 8) 1 = Returned 0 42 err_nil True
   \<and> unshared_results (two_sync 8) 0 = 0"
  by (simp add: two_sync_def scenario_defs step_defs joiners_def unshared_results_def upt_rec)

lemma steps_first: "steps I s' s'' \<Longrightarrow> step I s a = Some s' \<Longrightarrow> steps I s s''"
  by (induction rule: steps.induct) (auto intro: steps.intros)

lemma steps_foldl: "steps I s (foldl (do_step I) s acts)"
proof (induction acts arbitrary: s)
  case Nil
  show ?case by (simp add: steps_refl)
next
  case (Cons a acts)
  show ?case
  proof (cases "step I s a")
    case None
    with Cons [of s] show ?thesis by (simp add: do_step_def)
  next
    case (Some s')
    with Cons [of s'] show ?thesis by (auto simp: do_step_def intro: steps_first)
  qed
qed

lemma steps_run_prefix:
  assumes "n \<le> m"
  shows "steps I (run I (take n acts)) (run I (take m acts))"
proof -
  from assms have "take m acts = take n acts @ drop n (take m acts)"
    by (metis append_take_drop_id min.absorb1 take_take)
  then have "run I (take m acts) = foldl (do_step I) (run I (take n acts)) (drop n (take m acts))"
    by (metis foldl_append run_def)
  then show ?thesis by (simp add: steps_foldl)
qed


text \<open>The amended C7 on two joiners, and on one.\<close>

theorem no_unshared_result_among_several_joiners_witness:
  "reachable Group_any (two_sync 8) \<and> 0 < ncalls (two_sync 8) \<and> 2 \<le> joiners (two_sync 8) 0
   \<and> unshared_results (two_sync 8) 0 = 0
   \<and> reachable Group_any (one_sync 5) \<and> 0 < ncalls (one_sync 5) \<and> joiners (one_sync 5) 0 = 1
   \<and> (\<exists>sh. threads (one_sync 5) 0 = Returned 0 42 err_nil sh \<and> \<not> sh)"
proof -
  have r: "reachable Group_any (two_sync 8)" "reachable Group_any (one_sync 5)"
    unfolding two_sync_def one_sync_def by (rule reachable_run)+
  have a: "0 < ncalls (two_sync 8)" "2 \<le> joiners (two_sync 8) 0"
    by (simp_all add: two_sync_def scenario_defs step_defs joiners_def)
  have b: "0 < ncalls (one_sync 5)" "joiners (one_sync 5) 0 = 1"
    "threads (one_sync 5) 0 = Returned 0 42 err_nil False"
    by (simp_all add: one_sync_def scenario_defs step_defs joiners_def)
  from no_unshared_result_among_several_joiners [OF r(1) a(1)] a(2)
  have A: "unshared_results (two_sync 8) 0 = 0" by blast
  from no_unshared_result_among_several_joiners [OF r(2) b(1)] b(2)
  have B: "\<forall>t v e sh. threads (one_sync 5) t = Returned 0 v e sh \<longrightarrow> \<not> sh" by blast
  from B b(3) have C: "\<exists>sh. threads (one_sync 5) 0 = Returned 0 42 err_nil sh \<and> \<not> sh" by blast
  from r a b(1,2) A C show ?thesis by blast
qed

section \<open>The claims on the scenarios\<close>

lemma scenario_reachable:
  "reachable Group_any (two_sync n)" "reachable Group_any (one_sync n)"
  "reachable Group_any (two_chan n)" "reachable Group_any (goexit_chan n)"
  "reachable Group_any (goexit_dup n)" "reachable Group_any (forget_join n)"
  "reachable Group_any (forget_join_chan n)" "reachable I (panic_chan I n)"
  unfolding more_scenario_defs panic_chan_def forget_join_chan_def by (rule reachable_run)+

text \<open>C10 on the scenario \<open>two_chan\<close>.\<close>

theorem fan_out_never_blocks_witness:
  "reachable Group_any (two_chan 6) \<and> 1 < nchannels (two_chan 6)
   \<and> ch_cap (channels (two_chan 6) 1) = 1 \<and> length (ch_sent (channels (two_chan 6) 1)) \<le> 1
   \<and> reachable Group_any (two_chan 3)
   \<and> threads (two_chan 3) 2 = DoChan_entry ''k'' (Returns 7 err_nil)
   \<and> step Group_any (two_chan 3) (Sched 2) = Some (two_chan 4)
   \<and> threads (two_chan 4) 2 = ReturnedChan (nchannels (two_chan 3))
   \<and> nchannels (two_chan 4) = nchannels (two_chan 3) + 1
   \<and> channels (two_chan 4) (nchannels (two_chan 3)) = make_chan 1
   \<and> reachable Group_any (two_chan 5)
   \<and> threads (two_chan 5) 1 = doCall_deferred 0 ''k'' True False False
   \<and> (\<forall>e. fanout (channels (two_chan 5)) (chans (calls (two_chan 5) 0)) e
          = (deliver (channels (two_chan 5)) (chans (calls (two_chan 5) 0)) e, True))
   \<and> 1 < nthreads (two_chan 5) \<and> crashed (two_chan 5) = None
   \<and> (\<exists>s'. step Group_any (two_chan 5) (Sched 1) = Some s')"
proof -
  note r = scenario_reachable(3)
  have a: "1 < nchannels (two_chan 6)"
    by (simp add: two_chan_def scenario_defs step_defs)
  have b: "threads (two_chan 3) 2 = DoChan_entry ''k'' (Returns 7 err_nil)"
    "step Group_any (two_chan 3) (Sched 2) = Some (two_chan 4)"
    by (simp_all add: two_chan_def scenario_defs step_defs)
  have c: "threads (two_chan 5) 1 = doCall_deferred 0 ''k'' True False False"
    "1 < nthreads (two_chan 5)" "crashed (two_chan 5) = None"
    by (simp_all add: two_chan_def scenario_defs step_defs)
  note T6 = fan_out_never_blocks [OF r [of 6]]
  note T3 = fan_out_never_blocks [OF r [of 3]]
  note T5 = fan_out_never_blocks [OF r [of 5]]
  from T6 [THEN conjunct1, rule_format, OF a]
  have A: "ch_cap (channels (two_chan 6) 1) = 1 \<and> length (ch_sent (channels (two_chan 6) 1)) \<le> 1" .
  from T3 [THEN conjunct2, THEN conjunct2, THEN conjunct1, rule_format, OF conjI [OF b]]
  have B: "threads (two_chan 4) 2 = ReturnedChan (nchannels (two_chan 3))
      \<and> nchannels (two_chan 4) = nchannels (two_chan 3) + 1
      \<and> channels (two_chan 4) (nchannels (two_chan 3)) = make_chan 1" .
  from T5 [THEN conjunct2, THEN conjunct2, THEN conjunct2, rule_format, OF c(1)]
  have C: "(\<forall>e. fanout (channels (two_chan 5)) (chans (calls (two_chan 5) 0)) e
          = (deliver (channels (two_chan 5)) (chans (calls (two_chan 5) 0)) e, True))
      \<and> (1 < nthreads (two_chan 5) \<and> crashed (two_chan 5) = None \<longrightarrow>
           (\<exists>s'. step Group_any (two_chan 5) (Sched 1) = Some s'))" .
  from C c have D: "\<exists>s'. step Group_any (two_chan 5) (Sched 1) = Some s'" by (elim conjE) simp
  note A' = A [THEN conjunct1] A [THEN conjunct2]
  note B' = B [THEN conjunct1] B [THEN conjunct2, THEN conjunct1] B [THEN conjunct2, THEN conjunct2]
  show ?thesis
    using r [of 6] r [of 3] r [of 5] a b c A' B' C [THEN conjunct1] D
    by (intro conjI) assumption+
qed

text \<open>C6 on the scenarios \<open>two_sync\<close>, \<open>one_sync\<close> and \<open>two_chan\<close>.\<close>

theorem shared_flag_iff_another_joined_witness:
  "reachable Group_any (two_sync 8)
   \<and> threads (two_sync 8) 1 = Returned 0 42 err_nil True
   \<and> True = (dups (calls (two_sync 8) 0) > 0) \<and> True = (EvAttach 0 \<in> set (history (two_sync 8)))
   \<and> reachable Group_any (one_sync 5)
   \<and> threads (one_sync 5) 0 = Returned 0 42 err_nil False
   \<and> False = (dups (calls (one_sync 5) 0) > 0) \<and> False = (EvAttach 0 \<in> set (history (one_sync 5)))
   \<and> reachable Group_any (two_chan 6) \<and> 0 < ncalls (two_chan 6)
   \<and> 1 \<in> set (chans (calls (two_chan 6) 0))
   \<and> \<lparr>rc_value = 7, Err = err_nil, Shared = True\<rparr> \<in> set (ch_sent (channels (two_chan 6) 1))
   \<and> True = (dups (calls (two_chan 6) 0) > 0) \<and> True = (EvAttach 0 \<in> set (history (two_chan 6)))
   \<and> reachable Group_any (two_sync 6) \<and> 0 < nthreads (two_sync 6) \<and> crashed (two_sync 6) = None
   \<and> threads (two_sync 6) 0 = Do_return 0
   \<and> step Group_any (two_sync 6) (Sched 0) = Some ((two_sync 6)\<lparr>threads := (threads (two_sync 6))(0 :=
        Returned 0 (val (calls (two_sync 6) 0)) (err (calls (two_sync 6) 0)) (dups (calls (two_sync 6) 0) > 0))\<rparr>)
   \<and> dups (calls (two_sync 6) 0) = 1
   \<and> reachable Group_any (two_sync 7) \<and> threads (two_sync 7) 1 = Do_wait 0
   \<and> step Group_any (two_sync 7) (Sched 1) = Some (two_sync 8)
   \<and> 0 < ncalls (two_sync 6) \<and> waitGroup (calls (two_sync 6) 0) = 0
   \<and> steps Group_any (two_sync 6) (two_sync 8)
   \<and> dups (calls (two_sync 8) 0) = dups (calls (two_sync 6) 0)
   \<and> count_list (history (two_sync 8)) (EvAttach 0) = count_list (history (two_sync 6)) (EvAttach 0)"
proof -
  note r = scenario_reachable
  have a: "threads (two_sync 8) 1 = Returned 0 42 err_nil True"
    by (simp add: two_sync_def scenario_defs step_defs)
  have b: "threads (one_sync 5) 0 = Returned 0 42 err_nil False"
    by (simp add: one_sync_def scenario_defs step_defs)
  have c: "0 < ncalls (two_chan 6)" "1 \<in> set (chans (calls (two_chan 6) 0))"
    "\<lparr>rc_value = 7, Err = err_nil, Shared = True\<rparr> \<in> set (ch_sent (channels (two_chan 6) 1))"
    by (simp_all add: two_chan_def scenario_defs step_defs)
  have d: "0 < nthreads (two_sync 6)" "crashed (two_sync 6) = None"
    "threads (two_sync 6) 0 = Do_return 0"
    by (simp_all add: two_sync_def scenario_defs step_defs)
  have d': "dups (calls (two_sync 6) 0) = 1"
    "0 < ncalls (two_sync 6)" "waitGroup (calls (two_sync 6) 0) = 0"
    by (simp_all add: two_sync_def scenario_defs step_defs)
  have e: "threads (two_sync 7) 1 = Do_wait 0"
    "step Group_any (two_sync 7) (Sched 1) = Some (two_sync 8)"
    by (simp_all add: two_sync_def scenario_defs step_defs)
  have f: "steps Group_any (two_sync 6) (two_sync 8)"
    unfolding two_sync_def by (rule steps_run_prefix) simp
  note T8 = shared_flag_iff_another_joined [OF r(1) [of 8]]
  note T1 = shared_flag_iff_another_joined [OF r(2) [of 5]]
  note TC = shared_flag_iff_another_joined [OF r(3) [of 6]]
  note T6 = shared_flag_iff_another_joined [OF r(1) [of 6]]
  note T7 = shared_flag_iff_another_joined [OF r(1) [of 7]]
  from T8 [THEN conjunct1, rule_format, OF a]
  have A: "True = (dups (calls (two_sync 8) 0) > 0) \<and> True = (EvAttach 0 \<in> set (history (two_sync 8)))" .
  from T1 [THEN conjunct1, rule_format, OF b]
  have B: "False = (dups (calls (one_sync 5) 0) > 0) \<and> False = (EvAttach 0 \<in> set (history (one_sync 5)))" .
  from TC [THEN conjunct2, THEN conjunct1, rule_format, OF conjI [OF c(1) conjI [OF c(2,3)]]]
  have C: "True = (dups (calls (two_chan 6) 0) > 0) \<and> True = (EvAttach 0 \<in> set (history (two_chan 6)))"
    by simp
  from T6 [THEN conjunct2, THEN conjunct2, THEN conjunct1, rule_format, OF conjI [OF d(1) conjI [OF d(2,3)]]]
  have D: "step Group_any (two_sync 6) (Sched 0) = Some ((two_sync 6)\<lparr>threads := (threads (two_sync 6))(0 :=
        Returned 0 (val (calls (two_sync 6) 0)) (err (calls (two_sync 6) 0)) (dups (calls (two_sync 6) 0) > 0))\<rparr>)" .
  from T7 [THEN conjunct2, THEN conjunct2, THEN conjunct2, THEN conjunct1, rule_format,
      OF conjI [OF e(1) conjI [OF e(2) a]]]
  have E0: "True" .
  from T6 [THEN conjunct2, THEN conjunct2, THEN conjunct2, THEN conjunct2, rule_format,
      OF conjI [OF d'(2) conjI [OF d'(3) f]]]
  have E: "dups (calls (two_sync 8) 0) = dups (calls (two_sync 6) 0)
     \<and> count_list (history (two_sync 8)) (EvAttach 0) = count_list (history (two_sync 6)) (EvAttach 0)" .
  note A' = A [THEN conjunct1] A [THEN conjunct2]
  note B' = B [THEN conjunct1] B [THEN conjunct2]
  note C' = C [THEN conjunct1] C [THEN conjunct2]
  note E' = E [THEN conjunct1] E [THEN conjunct2]
  show ?thesis
    using r(1) [of 8] r(2) [of 5] r(3) [of 6] r(1) [of 6] r(1) [of 7] a b c d d' e f A' B' C' D E'
    by (intro conjI) assumption+
qed








text \<open>
  The condition is on the whole execution, not on the window alone. In \<open>forget_join\<close> the
  second record is registered for \<open>"k"\<close> from the sixth action on, no \<open>Forget\<close> runs after
  that and the record is not done after the eighth; yet two suppliers are invoked for
  \<open>"k"\<close> on the way, the one of the record that \<open>Forget\<close> removed earlier and its own.
\<close>

lemma two_invocations_after_earlier_forget:
  "workspaces (forget_join 6) ''k'' = Some 1
   \<and> steps_without_forget Group_any ''k'' (forget_join 6) 2 (forget_join 8)
   \<and> workspaces (forget_join 8) ''k'' = Some 1 \<and> waitGroup (calls (forget_join 8) 1) = 1
   \<and> history (forget_join 8) = [EvInvoke 1, EvInvoke 0, EvCreate 1, EvCreate 0]"
proof -
  have st: "step Group_any (forget_join 6) (Sched 0) = Some (forget_join 7)"
    "step Group_any (forget_join 7) (Sched 2) = Some (forget_join 8)"
    by (simp_all add: forget_join_def scenario_defs step_defs)
  have nf: "\<not> forgets (forget_join 6) (Sched 0) ''k''" "\<not> forgets (forget_join 7) (Sched 2) ''k''"
    by (simp_all add: forget_join_def scenario_defs step_defs)
  have iv: "invokes (forget_join 6) (Sched 0) ''k'' = True"
    "invokes (forget_join 7) (Sched 2) ''k'' = True"
    by (simp_all add: forget_join_def scenario_defs step_defs)
  from swf_step [OF swf_refl st(1) nf(1)]
  have a: "steps_without_forget Group_any ''k'' (forget_join 6) (Suc 0) (forget_join 7)"
    by (simp only: iv if_True)
  from swf_step [OF a st(2) nf(2)]
  have "steps_without_forget Group_any ''k'' (forget_join 6) (Suc (Suc 0)) (forget_join 8)"
    by (simp only: iv if_True)
  then have b: "steps_without_forget Group_any ''k'' (forget_join 6) 2 (forget_join 8)"
    by (simp only: numeral_2_eq_2)
  have c: "workspaces (forget_join 6) ''k'' = Some 1" "workspaces (forget_join 8) ''k'' = Some 1"
    "waitGroup (calls (forget_join 8) 1) = 1"
    "history (forget_join 8) = [EvInvoke 1, EvInvoke 0, EvCreate 1, EvCreate 0]"
    by (simp_all add: forget_join_def scenario_defs step_defs)
  from b c show ?thesis by simp
qed


lemma fw_reachable: "reachable Group_any (forget_waiter n)"
  unfolding forget_waiter_def by (rule reachable_run)

lemma fw_facts:
  "crashed (forget_waiter 6) = None" "2 < nthreads (forget_waiter 6)"
  "threads (forget_waiter 6) 2 = Forget_entry ''k''"
  "workspaces (forget_waiter 6) ''k'' = Some 0"
  "threads (forget_waiter 6) 0 = doCall_fn 0 ''k'' (Returns 1 err_nil) True"
  "threads (forget_waiter 6) 1 = Do_wait 0"
  "threads (forget_waiter 6) 3 = Do_entry ''k'' (Returns 2 err_nil)"
  "ncalls (forget_waiter 6) = 1"
  by (simp_all add: forget_waiter_def scenario_defs step_defs)

lemma fw_steps:
  "step Group_any (forget_waiter 6) (Sched 2) = Some (forget_waiter 7)"
  "step Group_any (forget_waiter 7) (Sched 3) = Some (forget_waiter 8)"
  "step Group_any (forget_waiter 10) (Sched 0) = Some (forget_waiter 11)"
  by (simp_all add: forget_waiter_def scenario_defs step_defs)

lemma fw_7: "3 < nthreads (forget_waiter 7)" "threads (forget_waiter 7) 3 = Do_entry ''k'' (Returns 2 err_nil)"
  by (simp_all add: forget_waiter_def scenario_defs step_defs)

lemma fw_10: "0 < nthreads (forget_waiter 10)" "crashed (forget_waiter 10) = None"
  "threads (forget_waiter 10) 0 = doCall_deferred 0 ''k'' True False True"
  "threads (forget_waiter 10) 3 = doCall_deferred 1 ''k'' True False True"
  "workspaces (forget_waiter 10) ''k'' = Some (ncalls (forget_waiter 6))"
  "\<not> forgets (forget_waiter 10) (Sched 0) ''k''"
  "history (forget_waiter 10) = [EvInvoke 1, EvInvoke 0, EvCreate 1, EvAttach 0, EvCreate 0]"
  by (simp_all add: forget_waiter_def scenario_defs step_defs)

lemma fw_11: "waitGroup (calls (forget_waiter 11) (ncalls (forget_waiter 6))) \<noteq> 0"
  "workspaces (forget_waiter 11) ''k'' = Some 1"
  by (simp_all add: forget_waiter_def scenario_defs step_defs)

lemma fw_12: "4 < nthreads (forget_waiter 12)" "crashed (forget_waiter 12) = None"
  "workspaces (forget_waiter 12) ''k'' = Some (ncalls (forget_waiter 6))"
  "threads (forget_waiter 12) 4 = Do_entry ''k'' (Returns 3 err_nil)"
  by (simp_all add: forget_waiter_def scenario_defs step_defs)

lemma fw_13: "1 < nthreads (forget_waiter 13)" "crashed (forget_waiter 13) = None"
  "threads (forget_waiter 13) 1 = Do_wait 0" "waitGroup (calls (forget_waiter 13) 0) = 0"
  "threads (forget_waiter 13) 4 = Do_wait 1" "ncalls (forget_waiter 13) = 2"
  by (simp_all add: forget_waiter_def scenario_defs step_defs)

lemma fw_18: "threads (forget_waiter 18) 0 = Returned 0 1 err_nil True"
  "threads (forget_waiter 18) 1 = Returned 0 1 err_nil True"
  "threads (forget_waiter 18) 3 = Returned 1 2 err_nil True"
  "threads (forget_waiter 18) 4 = Returned 1 2 err_nil True"
  "history (forget_waiter 18) = [EvAttach 1, EvInvoke 1, EvInvoke 0, EvCreate 1, EvAttach 0, EvCreate 0]"
  "ncalls (forget_waiter 18) = 2"
  by (simp_all add: forget_waiter_def scenario_defs step_defs)

lemma fjc_facts:
  "crashed (forget_join_chan 4) = None" "1 < nthreads (forget_join_chan 4)"
  "threads (forget_join_chan 4) 1 = Forget_entry ''k''"
  "workspaces (forget_join_chan 4) ''k'' = Some 0"
  "threads (forget_join_chan 4) 2 = DoChan_entry ''k'' (Returns 2 err_nil)"
  "step Group_any (forget_join_chan 4) (Sched 1) = Some (forget_join_chan 5)"
  "step Group_any (forget_join_chan 5) (Sched 2) = Some (forget_join_chan 6)"
  "2 < nthreads (forget_join_chan 5)"
  "threads (forget_join_chan 5) 2 = DoChan_entry ''k'' (Returns 2 err_nil)"
  "history (forget_join_chan 8) = [EvInvoke 1, EvInvoke 0, EvCreate 1, EvCreate 0]"
  by (simp_all add: forget_join_chan_def scenario_defs step_defs)

lemma fw_15:
  "steps Group_any (forget_waiter 7) (forget_waiter 10)"
  "steps Group_any (forget_waiter 7) (forget_waiter 12)"
  "steps Group_any (forget_waiter 7) (forget_waiter 13)"
  "steps Group_any (forget_waiter 7) (forget_waiter 15)"
  "3 < nthreads (forget_waiter 15)" "crashed (forget_waiter 15) = None"
  "threads (forget_waiter 15) 3 = doCall_deferred 1 ''k'' True False True"
  "step Group_any (forget_waiter 15) (Sched 3) = Some (forget_waiter 16)"
  "workspaces (forget_waiter 15) ''k'' = Some 1"
  "workspaces (forget_waiter 16) ''k'' = None"
  "3 < nthreads (forget_waiter 10)"
proof -
  show "steps Group_any (forget_waiter 7) (forget_waiter 10)"
    "steps Group_any (forget_waiter 7) (forget_waiter 12)"
    "steps Group_any (forget_waiter 7) (forget_waiter 13)"
    "steps Group_any (forget_waiter 7) (forget_waiter 15)"
    unfolding forget_waiter_def by (rule steps_run_prefix, simp)+
  show "3 < nthreads (forget_waiter 15)" "crashed (forget_waiter 15) = None"
    "threads (forget_waiter 15) 3 = doCall_deferred 1 ''k'' True False True"
    "step Group_any (forget_waiter 15) (Sched 3) = Some (forget_waiter 16)"
    "workspaces (forget_waiter 15) ''k'' = Some 1"
    "workspaces (forget_waiter 16) ''k'' = None"
    "3 < nthreads (forget_waiter 10)"
    by (simp_all add: forget_waiter_def scenario_defs step_defs)
qed

text \<open>C9 on the scenarios \<open>forget_waiter\<close> and \<open>forget_join_chan\<close>.\<close>

theorem forget_starts_independent_execution_witness:
  "reachable Group_any (forget_waiter 6) \<and> crashed (forget_waiter 6) = None
   \<and> 2 < nthreads (forget_waiter 6)
   \<and> threads (forget_waiter 6) 2 = Forget_entry ''k''
   \<and> workspaces (forget_waiter 6) ''k'' = Some 0
   \<and> threads (forget_waiter 6) 0 = doCall_fn 0 ''k'' (Returns 1 err_nil) True
   \<and> threads (forget_waiter 6) 1 = Do_wait 0
   \<and> threads (forget_waiter 6) 3 = Do_entry ''k'' (Returns 2 err_nil)
   \<and> ncalls (forget_waiter 6) = 1
   \<and> step Group_any (forget_waiter 6) (Sched 2) = Some (forget_waiter 7)
   \<and> waitGroup (calls (forget_waiter 7) 0) = 1
   \<and> steps Group_any (forget_waiter 7) (forget_waiter 10)
   \<and> workspaces (forget_waiter 10) ''k'' \<noteq> Some 0
   \<and> dups (calls (forget_waiter 10) 0) = dups (calls (forget_waiter 6) 0)
   \<and> chans (calls (forget_waiter 10) 0) = chans (calls (forget_waiter 6) 0)
   \<and> threads (forget_waiter 10) 0 = doCall_deferred 0 ''k'' True False True
   \<and> threads (forget_waiter 10) 3 = doCall_deferred 1 ''k'' True False True
   \<and> step Group_any (forget_waiter 10) (Sched 0) = Some (forget_waiter 11)
   \<and> workspaces (forget_waiter 11) = workspaces (forget_waiter 10)
   \<and> waitGroup (calls (forget_waiter 11) 0) = 0
   \<and> val (calls (forget_waiter 11) 0) = val (calls (forget_waiter 10) 0)
   \<and> err (calls (forget_waiter 11) 0) = defer_err (forget_waiter 10) 0 True False
   \<and> calls (forget_waiter 11) 1 = calls (forget_waiter 10) 1
   \<and> steps Group_any (forget_waiter 7) (forget_waiter 13)
   \<and> threads (forget_waiter 13) 1 = Do_wait 0 \<and> waitGroup (calls (forget_waiter 13) 0) = 0
   \<and> step Group_any (forget_waiter 13) (Sched 1)
        = Some ((forget_waiter 13)\<lparr>threads := (threads (forget_waiter 13))(1 :=
             (if is_panicError (type_B Group_any) (err (calls (forget_waiter 13) 0))
              then Panicked (err (calls (forget_waiter 13) 0))
              else if err (calls (forget_waiter 13) 0) = errGoexit then Goexited
              else Returned 0 (val (calls (forget_waiter 13) 0)) (err (calls (forget_waiter 13) 0)) True))\<rparr>)
   \<and> step Group_any (forget_waiter 7) (Sched 3) = Some (forget_waiter 8)
   \<and> threads (forget_waiter 8) 3 = doCall_fn (ncalls (forget_waiter 6)) ''k'' (Returns 2 err_nil) True
   \<and> workspaces (forget_waiter 8) ''k'' = Some (ncalls (forget_waiter 6))
   \<and> waitGroup (calls (forget_waiter 8) (ncalls (forget_waiter 6))) = 1
   \<and> 0 \<noteq> ncalls (forget_waiter 6) \<and> calls (forget_waiter 8) 0 = calls (forget_waiter 6) 0
   \<and> workspaces (forget_waiter 10) ''k'' = Some (ncalls (forget_waiter 6))
   \<and> workspaces (forget_waiter 11) ''k'' = Some (ncalls (forget_waiter 6))
   \<and> steps Group_any (forget_waiter 7) (forget_waiter 12)
   \<and> 4 < nthreads (forget_waiter 12) \<and> crashed (forget_waiter 12) = None
   \<and> workspaces (forget_waiter 12) ''k'' = Some (ncalls (forget_waiter 6))
   \<and> threads (forget_waiter 12) 4 = Do_entry ''k'' (Returns 3 err_nil)
   \<and> step Group_any (forget_waiter 12) (Sched 4)
        = Some ((forget_waiter 12)\<lparr>calls := (calls (forget_waiter 12))(ncalls (forget_waiter 6) :=
                    (calls (forget_waiter 12) (ncalls (forget_waiter 6)))\<lparr>dups :=
                       dups (calls (forget_waiter 12) (ncalls (forget_waiter 6))) + 1\<rparr>),
                  threads := (threads (forget_waiter 12))(4 := Do_wait (ncalls (forget_waiter 6))),
                  history := EvAttach (ncalls (forget_waiter 6)) # history (forget_waiter 12)\<rparr>)
   \<and> threads (forget_waiter 13) 4 = Do_wait 1 \<and> ncalls (forget_waiter 13) = 2
   \<and> steps Group_any (forget_waiter 7) (forget_waiter 15)
   \<and> threads (forget_waiter 15) 3 = doCall_deferred 1 ''k'' True False True
   \<and> workspaces (forget_waiter 15) ''k'' = Some 1
   \<and> step Group_any (forget_waiter 15) (Sched 3) = Some (forget_waiter 16)
   \<and> workspaces (forget_waiter 16)
        = (if workspaces (forget_waiter 15) ''k'' = Some 1
           then (workspaces (forget_waiter 15))(''k'' := None) else workspaces (forget_waiter 15))
   \<and> workspaces (forget_waiter 16) ''k'' = None
   \<and> waitGroup (calls (forget_waiter 16) 1) = 0
   \<and> calls (forget_waiter 16) 0 = calls (forget_waiter 15) 0
   \<and> threads (forget_waiter 18) 0 = Returned 0 1 err_nil True
   \<and> threads (forget_waiter 18) 1 = Returned 0 1 err_nil True
   \<and> threads (forget_waiter 18) 3 = Returned 1 2 err_nil True
   \<and> threads (forget_waiter 18) 4 = Returned 1 2 err_nil True
   \<and> history (forget_waiter 18)
        = [EvAttach 1, EvInvoke 1, EvInvoke 0, EvCreate 1, EvAttach 0, EvCreate 0]
   \<and> ncalls (forget_waiter 18) = 2
   \<and> reachable Group_any (forget_join_chan 4) \<and> crashed (forget_join_chan 4) = None
   \<and> 1 < nthreads (forget_join_chan 4)
   \<and> threads (forget_join_chan 4) 1 = Forget_entry ''k''
   \<and> workspaces (forget_join_chan 4) ''k'' = Some 0
   \<and> threads (forget_join_chan 4) 2 = DoChan_entry ''k'' (Returns 2 err_nil)
   \<and> step Group_any (forget_join_chan 4) (Sched 1) = Some (forget_join_chan 5)
   \<and> step Group_any (forget_join_chan 5) (Sched 2) = Some (forget_join_chan 6)
   \<and> threads (forget_join_chan 6) 2 = ReturnedChan (nchannels (forget_join_chan 4))
   \<and> threads (forget_join_chan 6) (nthreads (forget_join_chan 4))
        = doCall_fn (ncalls (forget_join_chan 4)) ''k'' (Returns 2 err_nil) False
   \<and> workspaces (forget_join_chan 6) ''k'' = Some (ncalls (forget_join_chan 4))
   \<and> waitGroup (calls (forget_join_chan 6) (ncalls (forget_join_chan 4))) = 1
   \<and> history (forget_join_chan 8) = [EvInvoke 1, EvInvoke 0, EvCreate 1, EvCreate 0]"
proof -
  note a = fw_facts
  note sts = fw_15(1-4)
  note A = forget_starts_independent_execution [OF fw_reachable [of 6] a(1,2,3)]
  note B = forget_starts_independent_execution [OF scenario_reachable(7) [of 4] fjc_facts(1,2,3)]
  from A obtain s1 where
    s1: "step Group_any (forget_waiter 6) (Sched 2) = Some s1"
    and W: "(\<forall>c0. workspaces (forget_waiter 6) ''k'' = Some c0 \<longrightarrow>
             waitGroup (calls s1 c0) = 1
             \<and> (\<forall>s2. steps Group_any s1 s2 \<longrightarrow>
                   (\<forall>k'. workspaces s2 k' \<noteq> Some c0) \<and> dups (calls s2 c0) = dups (calls (forget_waiter 6) c0)
                   \<and> chans (calls s2 c0) = chans (calls (forget_waiter 6) c0)
                   \<and> (\<forall>te key nr rc inl. te < nthreads s2 \<and> crashed s2 = None
                         \<and> threads s2 te = doCall_deferred c0 key nr rc inl \<longrightarrow>
                        (\<exists>s3. step Group_any s2 (Sched te) = Some s3 \<and> workspaces s3 = workspaces s2
                           \<and> waitGroup (calls s3 c0) = 0 \<and> val (calls s3 c0) = val (calls s2 c0)
                           \<and> err (calls s3 c0) = defer_err s2 c0 nr rc
                           \<and> (\<forall>c'. c' \<noteq> c0 \<longrightarrow> calls s3 c' = calls s2 c')
                           \<and> (\<not> is_panicError (type_B Group_any) (defer_err s2 c0 nr rc)
                                \<and> defer_err s2 c0 nr rc \<noteq> errGoexit \<longrightarrow>
                              (\<forall>ch \<in> set (chans (calls (forget_waiter 6) c0)).
                                  ch_sent (channels s3 ch) = [defer_envelope s2 c0 nr rc]))))
                   \<and> (\<forall>tw. tw < nthreads s2 \<and> crashed s2 = None \<and> threads s2 tw = Do_wait c0
                         \<and> waitGroup (calls s2 c0) = 0 \<longrightarrow>
                        step Group_any s2 (Sched tw)
                        = Some (s2\<lparr>threads := (threads s2)(tw :=
                            (if is_panicError (type_B Group_any) (err (calls s2 c0))
                             then Panicked (err (calls s2 c0))
                             else if err (calls s2 c0) = errGoexit then Goexited
                             else Returned c0 (val (calls s2 c0)) (err (calls s2 c0)) True))\<rparr>))))"
    and J: "(\<forall>tj fn. tj < nthreads s1 \<and> threads s1 tj = Do_entry ''k'' fn \<longrightarrow>
             (\<exists>s2. step Group_any s1 (Sched tj) = Some s2
                \<and> threads s2 tj = doCall_fn (ncalls (forget_waiter 6)) ''k'' fn True
                \<and> workspaces s2 ''k'' = Some (ncalls (forget_waiter 6)) \<and> waitGroup (calls s2 (ncalls (forget_waiter 6))) = 1
                \<and> (\<forall>c0. workspaces (forget_waiter 6) ''k'' = Some c0 \<longrightarrow> c0 \<noteq> ncalls (forget_waiter 6) \<and> calls s2 c0 = calls (forget_waiter 6) c0)
                \<and> (\<exists>s3. step Group_any s2 (Sched tj) = Some s3
                      \<and> history s3 = EvInvoke (ncalls (forget_waiter 6)) # EvCreate (ncalls (forget_waiter 6)) # history (forget_waiter 6))))"
    and N: "(\<forall>s3. steps Group_any s1 s3 \<longrightarrow>
              (\<forall>c a s4. step Group_any s3 a = Some s4 \<and> workspaces s3 ''k'' = Some c \<longrightarrow>
                   workspaces s4 ''k'' = Some c \<or> forgets s3 a ''k'' \<or> waitGroup (calls s4 c) = 0)
              \<and> (\<forall>c t fn. t < nthreads s3 \<and> crashed s3 = None \<and> workspaces s3 ''k'' = Some c
                     \<and> threads s3 t = Do_entry ''k'' fn \<longrightarrow>
                   step Group_any s3 (Sched t)
                   = Some (s3\<lparr>calls := (calls s3)(c := (calls s3 c)\<lparr>dups := dups (calls s3 c) + 1\<rparr>),
                             threads := (threads s3)(t := Do_wait c),
                             history := EvAttach c # history s3\<rparr>))
              \<and> (\<forall>c t fn. t < nthreads s3 \<and> crashed s3 = None \<and> workspaces s3 ''k'' = Some c
                     \<and> threads s3 t = DoChan_entry ''k'' fn \<longrightarrow>
                   step Group_any s3 (Sched t)
                   = Some (s3\<lparr>channels := (channels s3)(nchannels s3 := make_chan 1),
                             nchannels := nchannels s3 + 1,
                             calls := (calls s3)(c := (calls s3 c)\<lparr>dups := dups (calls s3 c) + 1,
                                          chans := chans (calls s3 c) @ [nchannels s3]\<rparr>),
                             threads := (threads s3)(t := ReturnedChan (nchannels s3)),
                             history := EvAttach c # history s3\<rparr>))
              \<and> (\<forall>t c key fn inl. t < nthreads s3 \<and> crashed s3 = None
                     \<and> threads s3 t = doCall_fn c key fn inl \<longrightarrow>
                   (\<exists>s4. step Group_any s3 (Sched t) = Some s4 \<and> workspaces s4 = workspaces s3
                      \<and> (\<forall>c'. c' \<noteq> c \<longrightarrow> calls s4 c' = calls s3 c')
                      \<and> history s4 = EvInvoke c # history s3))
              \<and> (\<forall>t c key nr rc inl. t < nthreads s3 \<and> crashed s3 = None
                     \<and> threads s3 t = doCall_deferred c key nr rc inl \<longrightarrow>
                   (\<exists>s4. step Group_any s3 (Sched t) = Some s4
                      \<and> workspaces s4 = (if workspaces s3 key = Some c then (workspaces s3)(key := None)
                                         else workspaces s3)
                      \<and> waitGroup (calls s4 c) = 0 \<and> val (calls s4 c) = val (calls s3 c)
                      \<and> err (calls s4 c) = defer_err s3 c nr rc
                      \<and> (\<forall>c'. c' \<noteq> c \<longrightarrow> calls s4 c' = calls s3 c')
                      \<and> (\<not> is_panicError (type_B Group_any) (defer_err s3 c nr rc) \<and> defer_err s3 c nr rc \<noteq> errGoexit \<longrightarrow>
                           (\<forall>ch \<in> set (chans (calls s3 c)).
                               ch_sent (channels s4 ch) = [defer_envelope s3 c nr rc])))))"
    by (elim exE conjE) (rule that)
  from s1 fw_steps(1) have e1: "s1 = forget_waiter 7" by simp
  note W0 = W [unfolded e1, rule_format, OF a(4)]
  note W1 = W0 [THEN conjunct1]
  note W2 = W0 [THEN conjunct2, rule_format, OF sts(1)]
  note W3 = W2 [THEN conjunct1, rule_format, of "''k''"] W2 [THEN conjunct2, THEN conjunct1]
    W2 [THEN conjunct2, THEN conjunct2, THEN conjunct1]
  from W2 [THEN conjunct2, THEN conjunct2, THEN conjunct2, THEN conjunct1, rule_format,
      OF conjI [OF fw_10(1) conjI [OF fw_10(2,3)]]]
  obtain s3 where x: "step Group_any (forget_waiter 10) (Sched 0) = Some s3"
    and X1: "workspaces s3 = workspaces (forget_waiter 10)"
    and X2: "waitGroup (calls s3 0) = 0" and X3: "val (calls s3 0) = val (calls (forget_waiter 10) 0)"
    and X4: "err (calls s3 0) = defer_err (forget_waiter 10) 0 True False"
    and X5: "\<forall>c'. c' \<noteq> 0 \<longrightarrow> calls s3 c' = calls (forget_waiter 10) c'"
    by (elim exE conjE) (rule that)
  from x fw_steps(3) have e3: "s3 = forget_waiter 11" by simp
  have one: "(1::nat) \<noteq> 0" and zero: "(0::nat) \<noteq> 1" by simp_all
  note X = X1 [unfolded e3] X2 [unfolded e3] X3 [unfolded e3] X4 [unfolded e3]
    X5 [unfolded e3, rule_format, OF one]
  note V2 = W0 [THEN conjunct2, rule_format, OF sts(3)]
  note Y = V2 [THEN conjunct2, THEN conjunct2, THEN conjunct2, THEN conjunct2, rule_format,
      OF conjI [OF fw_13(1) conjI [OF fw_13(2) conjI [OF fw_13(3,4)]]]]
  from J [unfolded e1, rule_format, OF conjI [OF fw_7]] obtain s2 where
    s2: "step Group_any (forget_waiter 7) (Sched 3) = Some s2"
    and J1: "threads s2 3 = doCall_fn (ncalls (forget_waiter 6)) ''k'' (Returns 2 err_nil) True"
    and J2: "workspaces s2 ''k'' = Some (ncalls (forget_waiter 6))"
    and J3: "waitGroup (calls s2 (ncalls (forget_waiter 6))) = 1"
    and J4: "\<forall>c0. workspaces (forget_waiter 6) ''k'' = Some c0 \<longrightarrow> c0 \<noteq> ncalls (forget_waiter 6) \<and> calls s2 c0 = calls (forget_waiter 6) c0"
    by (elim exE conjE) (rule that)
  from s2 fw_steps(2) have e2: "s2 = forget_waiter 8" by simp
  note K = J1 [unfolded e2] J2 [unfolded e2] J3 [unfolded e2]
  note K4 = J4 [unfolded e2, rule_format, OF a(4)]
  note K5 = K4 [THEN conjunct1] K4 [THEN conjunct2]
  note N10 = N [unfolded e1, rule_format, OF sts(1)]
  note P = N10 [THEN conjunct1, rule_format, OF conjI [OF fw_steps(3) fw_10(5)]]
  from P fw_10(6) fw_11(1) have P1: "workspaces (forget_waiter 11) ''k'' = Some (ncalls (forget_waiter 6))"
    by blast
  note N12 = N [unfolded e1, rule_format, OF sts(2)]
  note Q = N12 [THEN conjunct2, THEN conjunct1, rule_format,
      OF conjI [OF fw_12(1) conjI [OF fw_12(2) conjI [OF fw_12(3,4)]]]]
  note N15 = N [unfolded e1, rule_format, OF sts(4)]
  from N15 [THEN conjunct2, THEN conjunct2, THEN conjunct2, THEN conjunct2, rule_format,
      OF conjI [OF fw_15(5) conjI [OF fw_15(6,7)]]]
  obtain s4 where y: "step Group_any (forget_waiter 15) (Sched 3) = Some s4"
    and Y1: "workspaces s4 = (if workspaces (forget_waiter 15) ''k'' = Some 1
           then (workspaces (forget_waiter 15))(''k'' := None) else workspaces (forget_waiter 15))"
    and Y2: "waitGroup (calls s4 1) = 0"
    and Y5: "\<forall>c'. c' \<noteq> 1 \<longrightarrow> calls s4 c' = calls (forget_waiter 15) c'"
    by (elim exE conjE) (rule that)
  from y fw_15(8) have e4: "s4 = forget_waiter 16" by simp
  note Z = Y1 [unfolded e4] Y2 [unfolded e4] Y5 [unfolded e4, rule_format, OF zero]
  from B obtain s1' where
    b1: "step Group_any (forget_join_chan 4) (Sched 1) = Some s1'"
    and JC: "(\<forall>tj fn. tj < nthreads s1' \<and> threads s1' tj = DoChan_entry ''k'' fn \<longrightarrow>
             (\<exists>s2. step Group_any s1' (Sched tj) = Some s2
                \<and> threads s2 tj = ReturnedChan (nchannels (forget_join_chan 4))
                \<and> threads s2 (nthreads (forget_join_chan 4)) = doCall_fn (ncalls (forget_join_chan 4)) ''k'' fn False
                \<and> workspaces s2 ''k'' = Some (ncalls (forget_join_chan 4)) \<and> waitGroup (calls s2 (ncalls (forget_join_chan 4))) = 1
                \<and> (\<forall>c0. workspaces (forget_join_chan 4) ''k'' = Some c0 \<longrightarrow> c0 \<noteq> ncalls (forget_join_chan 4) \<and> calls s2 c0 = calls (forget_join_chan 4) c0)
                \<and> (\<exists>s3. step Group_any s2 (Sched (nthreads (forget_join_chan 4))) = Some s3
                      \<and> history s3 = EvInvoke (ncalls (forget_join_chan 4)) # EvCreate (ncalls (forget_join_chan 4)) # history (forget_join_chan 4))))"
    by (elim exE conjE) (rule that)
  from b1 fjc_facts(6) have e1': "s1' = forget_join_chan 5" by simp
  from JC [unfolded e1', rule_format, OF conjI [OF fjc_facts(8,9)]] obtain s2' where
    b2: "step Group_any (forget_join_chan 5) (Sched 2) = Some s2'"
    and L1: "threads s2' 2 = ReturnedChan (nchannels (forget_join_chan 4))"
    and L2: "threads s2' (nthreads (forget_join_chan 4)) = doCall_fn (ncalls (forget_join_chan 4)) ''k'' (Returns 2 err_nil) False"
    and L3: "workspaces s2' ''k'' = Some (ncalls (forget_join_chan 4))"
    and L4: "waitGroup (calls s2' (ncalls (forget_join_chan 4))) = 1"
    by (elim exE conjE) (rule that)
  from b2 fjc_facts(7) have e2': "s2' = forget_join_chan 6" by simp
  note L = L1 [unfolded e2'] L2 [unfolded e2'] L3 [unfolded e2'] L4 [unfolded e2']
  show ?thesis
    using fw_reachable [of 6] scenario_reachable(7) [of 4] a fw_steps sts W1 W3 fw_10 X Y K K5 P1
      fw_12 Q fw_13 fw_15 Z fw_18 fjc_facts L
    by (intro conjI) assumption+
qed

end
